theory Spec2Isabelle
  imports Main "HOL-Library.Sublist"
begin

section \<open>Byte strings\<close>

text \<open>
  The patcher works on Python \<^verbatim>\<open>bytes\<close>. A byte string is a \<^typ>\<open>string\<close> here (a list of
  8-bit characters). The identifiers the scanner captures are decoded from ASCII bytes and
  encoded back by \<^verbatim>\<open>.encode("ascii")\<close>, which is the identity on them, so text and bytes
  share the type. Offsets and lengths are results of \<^verbatim>\<open>len\<close> and \<^verbatim>\<open>m.start()\<close>, hence
  natural numbers; differences of lengths are integers, as in Python.
\<close>

type_synonym bytes = string

text \<open>Python's \<^verbatim>\<open>needle in haystack\<close> on bytes: a contiguous occurrence.\<close>

definition bytes_in :: "bytes \<Rightarrow> bytes \<Rightarrow> bool" where
  "bytes_in needle haystack = sublist needle haystack"

text \<open>
  The source writes its glyphs in raw literals such as \<^verbatim>\<open>r'"\ u2597"'\<close> (without the
  space): six ASCII bytes, a backslash, the letter u and four hex digits.
\<close>

definition esc_u :: "string \<Rightarrow> bytes" where
  "esc_u hex = CHR 0x5C # CHR ''u'' # hex"

section \<open>Design constants\<close>

definition ROW1_STR :: bytes where
  \<open>ROW1_STR = ''"'' @ esc_u ''2597'' @ esc_u ''2598'' @ '' '' @ esc_u ''2726'' @ '' ''
     @ esc_u ''259D'' @ esc_u ''2596'' @ ''"''\<close>

definition ROW2_WING :: bytes where
  \<open>ROW2_WING = ''"'' @ esc_u ''2590'' @ esc_u ''258C'' @ ''"''\<close>

definition ROW2_EYE :: bytes where
  \<open>ROW2_EYE = ''" '' @ esc_u ''25CF'' @ '' "''\<close>

definition ROW3_BASE :: bytes where
  \<open>ROW3_BASE = ''" '' @ esc_u ''2580'' @ ''   '' @ esc_u ''2580'' @ '' "''\<close>

text \<open>The two local literals \<^verbatim>\<open>row3_str\<close> of the padding branches: one and two more
  trailing spaces than \<^const>\<open>ROW3_BASE\<close>.\<close>

definition ROW3_PLUS1 :: bytes where
  \<open>ROW3_PLUS1 = ''" '' @ esc_u ''2580'' @ ''   '' @ esc_u ''2580'' @ ''  "''\<close>

definition ROW3_PLUS2 :: bytes where
  \<open>ROW3_PLUS2 = ''" '' @ esc_u ''2580'' @ ''   '' @ esc_u ''2580'' @ ''   "''\<close>

definition ROW1_COLOR :: bytes where "ROW1_COLOR = ''chromeYellow''"
definition ROW2_WING_COLOR :: bytes where "ROW2_WING_COLOR = ''penguinShimmer''"
definition ROW2_EYE_COLOR :: bytes where "ROW2_EYE_COLOR = ''chromeYellow''"
definition ROW3_COLOR :: bytes where "ROW3_COLOR = ''chromeYellow''"

section \<open>Detected blocks\<close>

datatype block_kind = Full_function | Return_block

text \<open>The dictionary \<^verbatim>\<open>find_mascot_blocks\<close> builds for each block.\<close>

record block_info =
  kind :: block_kind
  offset :: nat
  length_b :: nat
  block :: bytes
  func_name :: "string option"
  react_var :: string
  flex_var :: string
  text_var :: string

section \<open>Replacement builder\<close>

definition PATCHED_FINGERPRINT :: bytes where
  \<open>PATCHED_FINGERPRINT = ''color:"chromeYellow"},"'' @ esc_u ''2597'' @ esc_u ''2598'' @ '' ''
     @ esc_u ''2726'' @ '' '' @ esc_u ''259D'' @ esc_u ''2596'' @ ''"''\<close>

definition is_already_patched :: "bytes \<Rightarrow> bool" where
  "is_already_patched block_bytes = bytes_in PATCHED_FINGERPRINT block_bytes"

text \<open>
  The f-strings of \<^verbatim>\<open>build_replacement\<close>, one definition for each distinct template.
  \<^verbatim>\<open>render_row1\<close> takes the padding inserted before the closing parenthesis (empty in the
  core candidate).
\<close>

definition render_row1 :: "string \<Rightarrow> string \<Rightarrow> string \<Rightarrow> string" where
  \<open>render_row1 react text padding =
     react @ ''.createElement('' @ text @ '',{color:"'' @ ROW1_COLOR @ ''"},'' @ ROW1_STR
       @ padding @ '')''\<close>

definition render_row2 :: "string \<Rightarrow> string \<Rightarrow> string" where
  \<open>render_row2 react text =
     (let row2_left = react @ ''.createElement('' @ text @ '',{color:"'' @ ROW2_WING_COLOR
                        @ ''"},'' @ ROW2_WING @ '')'';
          row2_eye = react @ ''.createElement('' @ text @ '',{color:"'' @ ROW2_EYE_COLOR
                        @ ''"},'' @ ROW2_EYE @ '')'';
          row2_right = react @ ''.createElement('' @ text @ '',{color:"'' @ ROW2_WING_COLOR
                        @ ''"},'' @ ROW2_WING @ '')''
      in react @ ''.createElement('' @ text @ '',null,'' @ row2_left @ '','' @ row2_eye @ '',''
           @ row2_right @ '')'')\<close>

definition render_row3 :: "string \<Rightarrow> string \<Rightarrow> string \<Rightarrow> string" where
  \<open>render_row3 react text row3_str =
     react @ ''.createElement('' @ text @ '',{color:"'' @ ROW3_COLOR @ ''"},'' @ row3_str @ '')''\<close>

definition render_inner :: "string \<Rightarrow> string \<Rightarrow> string \<Rightarrow> string \<Rightarrow> string \<Rightarrow> string" where
  \<open>render_inner react flex row1 row2 row3 =
     react @ ''.createElement('' @ flex @ '',{flexDirection:"column",alignItems:"center"},''
       @ row1 @ '','' @ row2 @ '','' @ row3 @ '')''\<close>

text \<open>Python formats a missing \<^verbatim>\<open>func_name\<close> as the text \<^verbatim>\<open>None\<close>.\<close>

definition fmt_name :: "string option \<Rightarrow> string" where
  "fmt_name n = (case n of None \<Rightarrow> ''None'' | Some s \<Rightarrow> s)"

definition wrap_kind :: "block_info \<Rightarrow> string \<Rightarrow> string" where
  \<open>wrap_kind block_info inner =
     (if kind block_info = Full_function
      then ''function '' @ fmt_name (func_name block_info) @ ''(){return '' @ inner @ ''}''
      else ''return '' @ inner)\<close>

text \<open>The messages of \<^verbatim>\<open>build_replacement\<close>, with the numbers they print.\<close>

datatype build_msg =
    Too_long int int int
  | Exact_fit
  | Cannot_pad int int int
  | Too_long_after int
  | Size_mismatch int int
  | Padded int

text \<open>
  The middle of \<^verbatim>\<open>build_replacement\<close>: for remainder 1 or 2 row 3 is rendered again with
  the longer literal and delta, padding count and remainder are computed again; otherwise
  they stay. The result is \<^verbatim>\<open>(row3, delta, padding_count, remainder)\<close>.
\<close>

definition absorb_remainder ::
  "block_info \<Rightarrow> string \<Rightarrow> string \<Rightarrow> string \<Rightarrow> int \<Rightarrow> string \<times> int \<times> int \<times> int" where
  "absorb_remainder block_info row1 row2 row3 delta =
     (let react = react_var block_info; flex = flex_var block_info; text = text_var block_info;
          target_len = int (length_b block_info);
          remainder = delta mod 3;
          padding_count = delta div 3
      in if remainder = 1 then
           (let row3 = render_row3 react text ROW3_PLUS1;
                inner = render_inner react flex row1 row2 row3;
                core_bytes = wrap_kind block_info inner;
                delta = target_len - int (length core_bytes)
            in (row3, delta, delta div 3, delta mod 3))
         else if remainder = 2 then
           (let row3 = render_row3 react text ROW3_PLUS2;
                inner = render_inner react flex row1 row2 row3;
                core_bytes = wrap_kind block_info inner;
                delta = target_len - int (length core_bytes)
            in (row3, delta, delta div 3, delta mod 3))
         else (row3, delta, padding_count, remainder))"

definition build_replacement :: "block_info \<Rightarrow> bytes option \<times> bool \<times> build_msg" where
  \<open>build_replacement block_info =
     (let react = react_var block_info; flex = flex_var block_info; text = text_var block_info;
          target_len = int (length_b block_info);
          row1 = render_row1 react text [];
          row2 = render_row2 react text;
          row3 = render_row3 react text ROW3_BASE;
          inner = render_inner react flex row1 row2 row3;
          core_bytes = wrap_kind block_info inner;
          core_len = int (length core_bytes);
          delta = target_len - core_len
      in if delta < 0 then (None, False, Too_long (- delta) core_len target_len)
         else if delta = 0 then (Some core_bytes, True, Exact_fit)
         else
           (case absorb_remainder block_info row1 row2 row3 delta of
              (row3, delta, padding_count, remainder) \<Rightarrow>
                if remainder \<noteq> 0 then (None, False, Cannot_pad delta remainder padding_count)
                else if padding_count < 0 then (None, False, Too_long_after (- delta))
                else
                  (let padding = concat (replicate (nat padding_count) '',""'');
                       row1 = render_row1 react text padding;
                       inner = render_inner react flex row1 row2 row3;
                       replacement_bytes = wrap_kind block_info inner
                   in if int (length replacement_bytes) \<noteq> target_len
                      then (None, False,
                            Size_mismatch (int (length replacement_bytes)) target_len)
                      else (Some replacement_bytes, True, Padded padding_count))))\<close>

text \<open>
  Names for what the builder can return: the rendered candidate with a given row-1 padding
  and row-3 literal, the length of the core candidate, the row-3 literal for a remainder
  and a run of three-byte fillers.
\<close>

definition candidate :: "block_info \<Rightarrow> string \<Rightarrow> string \<Rightarrow> bytes" where
  "candidate b padding row3_str =
     wrap_kind b (render_inner (react_var b) (flex_var b)
       (render_row1 (react_var b) (text_var b) padding)
       (render_row2 (react_var b) (text_var b))
       (render_row3 (react_var b) (text_var b) row3_str))"

definition core_len :: "block_info \<Rightarrow> nat" where
  "core_len b = length (candidate b [] ROW3_BASE)"

definition row3_for :: "int \<Rightarrow> bytes" where
  "row3_for r = (if r = 1 then ROW3_PLUS1 else if r = 2 then ROW3_PLUS2 else ROW3_BASE)"

definition fillers :: "nat \<Rightarrow> bytes" where
  \<open>fillers n = concat (replicate n '',""'')\<close>

text \<open>A block with the identifiers \<^verbatim>\<open>f\<close>, \<^verbatim>\<open>c\<close>, \<^verbatim>\<open>t\<close>, \<^verbatim>\<open>w\<close> and a chosen length.\<close>

definition sample_block :: "block_kind \<Rightarrow> nat \<Rightarrow> block_info" where
  "sample_block k n =
     \<lparr>kind = k, offset = 0, length_b = n, block = [],
      func_name = (if k = Full_function then Some ''f'' else None),
      react_var = ''c'', flex_var = ''t'', text_var = ''w''\<rparr>"

section \<open>Delimiter extraction\<close>

text \<open>
  The scanning loop of \<^verbatim>\<open>_extract_block\<close>, the same for both kinds: \<open>i\<close> is the loop
  index, and the result is \<^verbatim>\<open>end\<close>, which stays 0 when the loop runs off the chunk.
\<close>

fun scan_balanced :: "char \<Rightarrow> char \<Rightarrow> bytes \<Rightarrow> nat \<Rightarrow> int \<Rightarrow> bool \<Rightarrow> nat" where
  "scan_balanced open_c close_c [] i depth started = 0"
| "scan_balanced open_c close_c (b # rest) i depth started =
     (if b = open_c then scan_balanced open_c close_c rest (i + 1) (depth + 1) True
      else if b = close_c then
        (if started \<and> depth - 1 = 0 then i + 1
         else scan_balanced open_c close_c rest (i + 1) (depth - 1) started)
      else scan_balanced open_c close_c rest (i + 1) depth started)"

text \<open>
  \<^verbatim>\<open>_extract_block(data, start_offset, kind)\<close>; the kind is the string the caller passes
  (\<^verbatim>\<open>"function"\<close> tracks braces, anything else parentheses).
\<close>

definition extract_block :: "bytes \<Rightarrow> nat \<Rightarrow> string \<Rightarrow> bytes option \<times> nat" where
  "extract_block data start_offset knd =
     (let (open_c, close_c) =
            (if knd = ''function'' then (CHR ''{'', CHR ''}'') else (CHR ''('', CHR '')''));
          chunk_size = 2000;
          chunk = take chunk_size (drop start_offset data)
      in if knd = ''function'' then
           (let end_i = scan_balanced open_c close_c chunk 0 0 False
            in if end_i = 0 then (None, 0) else (Some (take end_i chunk), end_i))
         else
           (let end_i = scan_balanced (CHR ''('') (CHR '')'') chunk 0 0 False
            in if end_i = 0 then (None, 0) else (Some (take end_i chunk), end_i)))"

text \<open>
  The delimiters of a kind, the running depth of a byte string, a trace that never goes
  negative from a starting depth, the positions where the depth comes back to zero, and
  the positions where the loop would stop: a closer, after an opener, at depth zero.
\<close>

definition open_of :: "string \<Rightarrow> char" where
  "open_of knd = (if knd = ''function'' then CHR ''{'' else CHR ''('')"

definition close_of :: "string \<Rightarrow> char" where
  "close_of knd = (if knd = ''function'' then CHR ''}'' else CHR '')'')"

primrec depth :: "char \<Rightarrow> char \<Rightarrow> bytes \<Rightarrow> int" where
  "depth open_c close_c [] = 0"
| "depth open_c close_c (b # s) =
     (if b = open_c then 1 else if b = close_c then - 1 else 0) + depth open_c close_c s"

primrec never_negative :: "char \<Rightarrow> char \<Rightarrow> int \<Rightarrow> bytes \<Rightarrow> bool" where
  "never_negative open_c close_c d [] = True"
| "never_negative open_c close_c d (b # s) =
     (let d' = d + (if b = open_c then 1 else if b = close_c then - 1 else 0)
      in 0 \<le> d' \<and> never_negative open_c close_c d' s)"

definition returns_to_zero :: "char \<Rightarrow> char \<Rightarrow> bytes \<Rightarrow> nat \<Rightarrow> bool" where
  "returns_to_zero open_c close_c s k \<longleftrightarrow>
     0 < k \<and> k \<le> length s \<and> depth open_c close_c (take k s) = 0
       \<and> depth open_c close_c (take (k - 1) s) \<noteq> 0"

definition hit :: "char \<Rightarrow> char \<Rightarrow> bytes \<Rightarrow> nat \<Rightarrow> bool" where
  "hit open_c close_c s k \<longleftrightarrow>
     0 < k \<and> k \<le> length s \<and> s ! (k - 1) = close_c \<and> open_c \<in> set (take k s)
       \<and> depth open_c close_c (take k s) = 0"


section \<open>Pattern detection\<close>

definition ANCHOR :: bytes where
  \<open>ANCHOR = ''flexDirection:"column",alignItems:"center"''\<close>

definition MASCOT_CHARS :: "bytes list" where
  "MASCOT_CHARS = [esc_u ''25CF'', esc_u ''2580'', esc_u ''258C'', esc_u ''2590'', esc_u ''2584'',
     esc_u ''2596'', esc_u ''2597'', esc_u ''2598'', esc_u ''259D'', esc_u ''2726'']"

text \<open>
  The character classes of a bytes pattern: \<^verbatim>\<open>\s\<close> is the six ASCII whitespace bytes,
  \<^verbatim>\<open>\w\<close> the ASCII letters, digits and underscore; the class \<^verbatim>\<open>[\w$]\<close> adds the dollar.
\<close>

definition is_space :: "char \<Rightarrow> bool" where
  "is_space b \<longleftrightarrow> b \<in> set [CHR '' '', CHR 0x09, CHR 0x0A, CHR 0x0B, CHR 0x0C, CHR 0x0D]"

definition is_word :: "char \<Rightarrow> bool" where
  "is_word b \<longleftrightarrow>
     (let n = (of_char b :: nat)
      in (97 \<le> n \<and> n \<le> 122) \<or> (65 \<le> n \<and> n \<le> 90) \<or> (48 \<le> n \<and> n \<le> 57) \<or> n = 95)"

definition is_ident :: "char \<Rightarrow> bool" where
  "is_ident b \<longleftrightarrow> is_word b \<or> b = CHR ''$''"

text \<open>A literal piece of a pattern: the rest of the input after it, if the input starts
  with it.\<close>

fun strip_prefix :: "bytes \<Rightarrow> bytes \<Rightarrow> bytes option" where
  "strip_prefix [] s = Some s"
| "strip_prefix (x # xs) [] = None"
| "strip_prefix (x # xs) (y # ys) = (if x = y then strip_prefix xs ys else None)"

text \<open>
  The tail both anchors share, after \<^verbatim>\<open>return\s+\<close>:
  \<^verbatim>\<open>([\w$]+(?:\.[\w$]+)?)\.createElement\(([\w$]+),\{flexDirection:"column",alignItems:"center"\}\<close>.
  Every repetition is followed by a byte outside its class, so it takes the longest run;
  the optional group is tried first, as the greedy operator does. The result is the two
  groups and the input after the match.
\<close>

definition match_flex :: "string \<Rightarrow> bytes \<Rightarrow> (string \<times> string \<times> bytes) option" where
  \<open>match_flex react s =
     (let flex = takeWhile is_ident s
      in if flex = [] then None
         else (case strip_prefix ('',{'' @ ANCHOR @ ''}'') (dropWhile is_ident s) of
                 None \<Rightarrow> None
               | Some rest \<Rightarrow> Some (react, flex, rest)))\<close>

definition match_call :: "bytes \<Rightarrow> (string \<times> string \<times> bytes) option" where
  \<open>match_call s =
     (let a = takeWhile is_ident s; s1 = dropWhile is_ident s
      in if a = [] then None
         else
           (let with_member =
                  (case strip_prefix ''.'' s1 of
                     None \<Rightarrow> None
                   | Some t \<Rightarrow>
                       (let b = takeWhile is_ident t
                        in if b = [] then None
                           else (case strip_prefix ''.createElement('' (dropWhile is_ident t) of
                                   None \<Rightarrow> None
                                 | Some s3 \<Rightarrow> match_flex (a @ ''.'' @ b) s3)))
            in case with_member of
                 Some r \<Rightarrow> Some r
               | None \<Rightarrow>
                   (case strip_prefix ''.createElement('' s1 of
                      None \<Rightarrow> None
                    | Some s3 \<Rightarrow> match_flex a s3)))\<close>

text \<open>\<^verbatim>\<open>RETURN_BLOCK_RE\<close> matched at the start of the input: groups 1 and 2 and the rest.\<close>

definition match_return_block :: "bytes \<Rightarrow> (string \<times> string \<times> bytes) option" where
  "match_return_block s =
     (case strip_prefix ''return'' s of
        None \<Rightarrow> None
      | Some s1 \<Rightarrow> if takeWhile is_space s1 = [] then None
                   else match_call (dropWhile is_space s1))"

text \<open>\<^verbatim>\<open>FULL_FUNC_RE\<close> matched at the start of the input: groups 1, 2 and 3 and the rest.\<close>

definition match_full_func :: "bytes \<Rightarrow> (string \<times> string \<times> string \<times> bytes) option" where
  "match_full_func s =
     (case strip_prefix ''function'' s of
        None \<Rightarrow> None
      | Some s1 \<Rightarrow>
          if takeWhile is_space s1 = [] then None
          else
            (let s2 = dropWhile is_space s1; name = takeWhile is_ident s2
             in if name = [] then None
                else (case strip_prefix ''(){return'' (dropWhile is_ident s2) of
                        None \<Rightarrow> None
                      | Some s3 \<Rightarrow>
                          if takeWhile is_space s3 = [] then None
                          else (case match_call (dropWhile is_space s3) of
                                  None \<Rightarrow> None
                                | Some (react, flex, rest) \<Rightarrow> Some (name, react, flex, rest)))))"

text \<open>
  \<^verbatim>\<open>finditer\<close>: the matches from left to right, none overlapping another; each with its
  start. \<open>skip\<close> counts the bytes of the last match still to pass. The matcher returns its
  groups and the input after the match.
\<close>

fun finditer_from :: "(bytes \<Rightarrow> ('g \<times> bytes) option) \<Rightarrow> bytes \<Rightarrow> nat \<Rightarrow> nat \<Rightarrow> (nat \<times> 'g) list" where
  "finditer_from m [] pos skip = []"
| "finditer_from m (x # xs) pos skip =
     (if 0 < skip then finditer_from m xs (pos + 1) (skip - 1)
      else (case m (x # xs) of
              None \<Rightarrow> finditer_from m xs (pos + 1) 0
            | Some (g, rest) \<Rightarrow>
                (pos, g) # finditer_from m xs (pos + 1) (length (x # xs) - length rest - 1)))"

definition finditer_full :: "bytes \<Rightarrow> (nat \<times> string \<times> string \<times> string) list" where
  "finditer_full data =
     finditer_from (\<lambda>s. case match_full_func s of None \<Rightarrow> None
                          | Some (n, r, f, rest) \<Rightarrow> Some ((n, r, f), rest)) data 0 0"

definition finditer_return :: "bytes \<Rightarrow> (nat \<times> string \<times> string) list" where
  "finditer_return data =
     finditer_from (\<lambda>s. case match_return_block s of None \<Rightarrow> None
                          | Some (r, f, rest) \<Rightarrow> Some ((r, f), rest)) data 0 0"

text \<open>
  \<^verbatim>\<open>re.search\<close> of \<^verbatim>\<open>createElement\(([\w$]+)\<close> followed by a literal: group 1 of the
  leftmost match.
\<close>

definition match_text_at :: "bytes \<Rightarrow> bytes \<Rightarrow> string option" where
  "match_text_at lit s =
     (case strip_prefix ''createElement('' s of
        None \<Rightarrow> None
      | Some s1 \<Rightarrow>
          (let t = takeWhile is_ident s1
           in if t = [] then None
              else (case strip_prefix lit (dropWhile is_ident s1) of
                      None \<Rightarrow> None | Some rest \<Rightarrow> Some t)))"

fun search_text :: "bytes \<Rightarrow> bytes \<Rightarrow> string option" where
  "search_text lit [] = None"
| "search_text lit (x # xs) =
     (case match_text_at lit (x # xs) of Some t \<Rightarrow> Some t | None \<Rightarrow> search_text lit xs)"

text \<open>The three searches for the text component, in the order the source tries them.\<close>

definition find_text_var :: "bytes \<Rightarrow> string option" where
  \<open>find_text_var block_bytes =
     (case search_text '',{color:"clawd_body"'' block_bytes of
        Some t \<Rightarrow> Some t
      | None \<Rightarrow>
          (case search_text '',{color:"penguinShimmer"'' block_bytes of
             Some t \<Rightarrow> Some t
           | None \<Rightarrow> search_text '',null,'' block_bytes))\<close>

text \<open>The two context checks on the 600 bytes from the start of a match.\<close>

definition context_ok :: "bytes \<Rightarrow> nat \<Rightarrow> bool" where
  "context_ok data start =
     (let context = take 600 (drop start data)
      in bytes_in ''clawd_body'' context \<and> list_ex (\<lambda>c. bytes_in c context) MASCOT_CHARS)"

text \<open>The body of the first loop for one match: the block it appends, if it appends one.\<close>

definition full_function_block :: "bytes \<Rightarrow> nat \<times> string \<times> string \<times> string \<Rightarrow> block_info option" where
  "full_function_block data m =
     (case m of (func_start, fname, react, flex) \<Rightarrow>
        if \<not> context_ok data func_start then None
        else (case extract_block data func_start ''function'' of
                (None, block_len) \<Rightarrow> None
              | (Some block_bytes, block_len) \<Rightarrow>
                  (case find_text_var block_bytes of
                     None \<Rightarrow> None
                   | Some text \<Rightarrow>
                       Some \<lparr>kind = Full_function, offset = func_start, length_b = block_len,
                             block = block_bytes, func_name = Some fname, react_var = react,
                             flex_var = flex, text_var = text\<rparr>)))"

fun strategy1 :: "bytes \<Rightarrow> block_info list \<Rightarrow> (nat \<times> string \<times> string \<times> string) list \<Rightarrow> block_info list" where
  "strategy1 data blocks [] = blocks"
| "strategy1 data blocks (m # ms) =
     (case full_function_block data m of
        None \<Rightarrow> strategy1 data blocks ms
      | Some b \<Rightarrow> strategy1 data (blocks @ [b]) ms)"

text \<open>The test of the second loop against every block collected so far.\<close>

definition inside_full :: "block_info list \<Rightarrow> nat \<Rightarrow> bool" where
  "inside_full blocks return_start =
     list_ex (\<lambda>fb. offset fb \<le> return_start \<and> return_start < offset fb + length_b fb) blocks"

definition return_block :: "bytes \<Rightarrow> nat \<times> string \<times> string \<Rightarrow> block_info option" where
  "return_block data m =
     (case m of (return_start, react, flex) \<Rightarrow>
        if \<not> context_ok data return_start then None
        else (case extract_block data return_start ''return'' of
                (None, block_len) \<Rightarrow> None
              | (Some block_bytes, block_len) \<Rightarrow>
                  (case find_text_var block_bytes of
                     None \<Rightarrow> None
                   | Some text \<Rightarrow>
                       Some \<lparr>kind = Return_block, offset = return_start, length_b = block_len,
                             block = block_bytes, func_name = None, react_var = react,
                             flex_var = flex, text_var = text\<rparr>)))"

fun strategy2 :: "bytes \<Rightarrow> block_info list \<Rightarrow> (nat \<times> string \<times> string) list \<Rightarrow> block_info list" where
  "strategy2 data blocks [] = blocks"
| "strategy2 data blocks (m # ms) =
     (if inside_full blocks (fst m) then strategy2 data blocks ms
      else (case return_block data m of
              None \<Rightarrow> strategy2 data blocks ms
            | Some b \<Rightarrow> strategy2 data (blocks @ [b]) ms))"

definition find_mascot_blocks :: "bytes \<Rightarrow> block_info list" where
  "find_mascot_blocks data =
     strategy2 data (strategy1 data [] (finditer_full data)) (finditer_return data)"

text \<open>A stock image: a mascot function of 438 bytes between a header and a trailer.\<close>

definition stock_block :: bytes where
  \<open>stock_block =
     ''function f(){return c.createElement(t,{flexDirection:"column",alignItems:"center"},''
     @ ''c.createElement(w,{color:"clawd_body"},"'' @ esc_u ''2590'' @ esc_u ''258C'' @ ''"),''
     @ ''c.createElement(w,{color:"clawd_body"},"'' @ replicate 256 CHR ''x'' @ ''"))}''\<close>

definition stock_image :: bytes where
  "stock_image = ''var a=1;'' @ stock_block @ '';var b=2;''"

subsection \<open>Well-formed blocks\<close>

text \<open>
  A block is well formed for an image when its bytes are the slice of the image its offset
  and length name, and the slice is not empty and lies inside the image.
\<close>

definition wf_block :: "bytes \<Rightarrow> block_info \<Rightarrow> bool" where
  "wf_block data b \<longleftrightarrow>
     0 < length_b b \<and> block b = take (length_b b) (drop (offset b) data)
       \<and> length (block b) = length_b b \<and> offset b + length_b b \<le> length data"

text \<open>No return block starts inside the range of a full-function block.\<close>

definition no_return_in_full :: "block_info list \<Rightarrow> bool" where
  "no_return_in_full blocks \<longleftrightarrow>
     (\<forall>rb\<in>set blocks. \<forall>fb\<in>set blocks.
        kind rb = Return_block \<and> kind fb = Full_function \<longrightarrow>
        \<not> (offset fb \<le> offset rb \<and> offset rb < offset fb + length_b fb))"


section \<open>The run of the patcher\<close>

text \<open>
  What \<^verbatim>\<open>main\<close> prints is a list of lines, each with the helper that printed it and the
  text of its template (placeholders are not filled in, and the long dash of the source is
  written as a hyphen). The progress line that gate 4 and the apply loop print for each
  patch is not listed.
\<close>

datatype level = Header | Info | Success | Warn | Error | Plain

type_synonym diag = "level \<times> string"

record args =
  arg_dry_run :: bool
  arg_restore :: bool
  arg_binary :: "string option"
  arg_no_color :: bool

text \<open>
  The file system is a map from paths to contents. Everything else the run asks of its
  surroundings is a field of \<open>env\<close>: the binary \<^verbatim>\<open>find_claude_binary\<close> returns, whether a
  path is readable, whether an image answers \<^verbatim>\<open>--version\<close>, what \<^verbatim>\<open>codesign\<close> answers and
  leaves in the file, and whether a copy or the write of the temporary file succeeds.
\<close>

type_synonym files = "string \<Rightarrow> bytes option"

record env =
  located :: "string option"
  readable :: "string \<Rightarrow> bool"
  runs :: "bytes \<Rightarrow> bool"
  sign :: "bytes \<Rightarrow> bool \<times> bytes"
  copy_ok :: "string \<Rightarrow> string \<Rightarrow> bool"
  write_ok :: "string \<Rightarrow> bool"

text \<open>The \<^verbatim>\<open>return 0\<close> that ended the run.\<close>

datatype outcome =
    Binary_not_located | Binary_not_found | Binary_not_readable
  | Restore_failed | Restored
  | Binary_fails_to_run | No_blocks | Nothing_to_do | Build_failed
  | Length_mismatch | Overlap | Dry_run_complete
  | Unexpected_content | Size_changed | Write_failed
  | Codesign_failed | Verification_failed | Done

type_synonym result = "files \<times> int \<times> outcome \<times> diag list"

text \<open>A patch is the tuple \<^verbatim>\<open>(offset, length, old_bytes, new_bytes)\<close>.\<close>

type_synonym patch = "nat \<times> nat \<times> bytes \<times> bytes"

definition verify_binary_runs :: "env \<Rightarrow> files \<Rightarrow> string \<Rightarrow> bool" where
  "verify_binary_runs e fs binary_path =
     (case fs binary_path of None \<Rightarrow> False | Some c \<Rightarrow> runs e c)"

definition codesign_binary :: "env \<Rightarrow> files \<Rightarrow> string \<Rightarrow> bool \<times> files" where
  "codesign_binary e fs binary_path =
     (case fs binary_path of
        None \<Rightarrow> (False, fs)
      | Some c \<Rightarrow> (fst (sign e c), fs(binary_path \<mapsto> snd (sign e c))))"

definition backup_path :: "string \<Rightarrow> string" where
  "backup_path binary_path = binary_path @ ''.bak''"

definition create_backup :: "env \<Rightarrow> files \<Rightarrow> string \<Rightarrow> (bool \<times> string) \<times> files" where
  "create_backup e fs binary_path =
     (let bak = backup_path binary_path
      in if fs bak \<noteq> None then ((True, ''Backup already exists''), fs)
         else (case fs binary_path of
                 None \<Rightarrow> ((False, ''Failed to create backup: {e}''), fs)
               | Some c \<Rightarrow>
                   if copy_ok e binary_path bak
                   then ((True, ''Created backup at {bak}''), fs(bak \<mapsto> c))
                   else ((False, ''Failed to create backup: {e}''), fs)))"

definition restore_backup :: "env \<Rightarrow> files \<Rightarrow> string \<Rightarrow> (bool \<times> string) \<times> files" where
  "restore_backup e fs binary_path =
     (let bak = backup_path binary_path
      in case fs bak of
           None \<Rightarrow> ((False, ''No backup file found''), fs)
         | Some c \<Rightarrow>
             if copy_ok e bak binary_path
             then ((True, ''Restored from backup''), fs(binary_path \<mapsto> c))
             else ((False, ''Failed to restore: {e}''), fs))"

text \<open>The branch of \<^verbatim>\<open>main\<close> for \<^verbatim>\<open>--restore\<close>.\<close>

definition main_restore :: "env \<Rightarrow> files \<Rightarrow> string \<Rightarrow> result" where
  "main_restore e fs binary =
     (case restore_backup e fs binary of
        ((ok, msg), fs1) \<Rightarrow>
          if \<not> ok then (fs1, 0, Restore_failed, [(Header, ''Restoring from backup''), (Error, msg)])
          else
            (case codesign_binary e fs1 binary of
               (signed, fs2) \<Rightarrow>
                 (fs2, 0, Restored,
                  [(Header, ''Restoring from backup''), (Success, msg),
                   (Info, ''Re-signing binary...''),
                   (if signed then (Success, ''Binary re-signed successfully'')
                    else (Warn, ''codesign failed - binary may not run on macOS'')),
                   (if verify_binary_runs e fs2 binary
                    then (Success, ''Binary runs correctly after restore'')
                    else (Warn, ''Binary verification failed after restore''))])))"

text \<open>The block both failure branches after the write share: restore the backup, sign
  again, check again.\<close>

definition rollback :: "env \<Rightarrow> files \<Rightarrow> string \<Rightarrow> files \<times> diag list" where
  "rollback e fs binary =
     (case restore_backup e fs binary of
        ((ok, msg), fs1) \<Rightarrow>
          if ok then
            (case codesign_binary e fs1 binary of
               (signed, fs2) \<Rightarrow>
                 (fs2, [(Success, msg),
                        (if verify_binary_runs e fs2 binary
                         then (Success, ''Backup restored and verified'')
                         else (Error, ''Backup restoration also failed - manual intervention needed''))]))
          else (fs1, [(Error, msg)]))"

text \<open>Gates 8 and 9 and the summary, after the binary has been written.\<close>

definition main_written :: "env \<Rightarrow> files \<Rightarrow> string \<Rightarrow> result" where
  "main_written e fs binary =
     (case codesign_binary e fs binary of
        (signed, fs1) \<Rightarrow>
          if \<not> signed then
            (case rollback e fs1 binary of
               (fs2, out) \<Rightarrow>
                 (fs2, 0, Codesign_failed,
                  [(Info, ''Re-signing binary...''),
                   (Warn, ''codesign failed - attempting to restore from backup'')] @ out))
          else if \<not> verify_binary_runs e fs1 binary then
            (case rollback e fs1 binary of
               (fs2, out) \<Rightarrow>
                 (fs2, 0, Verification_failed,
                  [(Info, ''Re-signing binary...''), (Success, ''Binary re-signed''),
                   (Info, ''Verifying binary runs after patching...''),
                   (Error, ''Binary verification failed after patching!''),
                   (Info, ''Restoring from backup...'')] @ out))
          else
            (fs1, 0, Done,
             [(Info, ''Re-signing binary...''), (Success, ''Binary re-signed''),
              (Info, ''Verifying binary runs after patching...''),
              (Success, ''Binary runs correctly after patching''),
              (Header, ''Done!''),
              (Success, ''Patched {len(patches)} mascot blocks with #29 Winged Eye design''),
              (Info, ''Launch claude to see the new mascot.'')]))"

text \<open>
  The loop that applies the patches to \<^verbatim>\<open>modified\<close>, the copy of the bytes read at the
  start: \<^verbatim>\<open>None\<close> when a slice differs from the recorded bytes. A slice assignment puts
  the new bytes between the part before the offset and the part after the slice.
\<close>

fun apply_patches :: "bytes \<Rightarrow> patch list \<Rightarrow> bytes option" where
  "apply_patches modified [] = Some modified"
| "apply_patches modified ((off, len, old, new) # ps) =
     (let actual = take len (drop off modified)
      in if actual \<noteq> old then None
         else apply_patches (take off modified @ new @ drop (off + len) modified) ps)"

text \<open>
  From the backup on. \<open>data\<close> is what was read from the binary when the run started and
  \<open>fs\<close> the file system now.
\<close>

definition main_apply :: "env \<Rightarrow> files \<Rightarrow> string \<Rightarrow> bytes \<Rightarrow> patch list \<Rightarrow> result" where
  "main_apply e fs binary data patches =
     (case create_backup e fs binary of
        ((ok, msg), fs1) \<Rightarrow>
          (let out_backup =
                 (Header, ''Backup'') #
                 (if ok then [(Info, msg)]
                  else [(Warn, ''Backup failed: {msg}''), (Warn, ''Proceeding without backup'')])
                 @ [(Header, ''Applying patches'')]
           in case apply_patches data patches of
                None \<Rightarrow>
                  (fs1, 0, Unexpected_content,
                   out_backup @
                   [(Error, ''Unexpected content at offset {offset:,} - binary may have changed.''),
                    (Info, ''Aborting - no changes written.'')])
              | Some modified \<Rightarrow>
                  if length modified \<noteq> length data then
                    (fs1, 0, Size_changed,
                     out_backup @
                     [(Error, ''Binary size changed: {len(data):,} -> {len(modified):,}''),
                      (Info, ''Aborting - no changes written.'')])
                  else
                    (let temp_path = binary @ ''.tmp''
                     in if \<not> write_ok e temp_path then
                          (fs1(temp_path := None), 0, Write_failed,
                           out_backup @
                           [(Error, ''Failed to write binary: {e}''),
                            (Info, ''Original binary is untouched.'')])
                        else
                          (case main_written e ((fs1(temp_path := None))(binary \<mapsto> modified))
                                  binary of
                             (fs2, rc, oc, out) \<Rightarrow>
                               (fs2, rc, oc,
                                out_backup @ [(Success, ''Binary written successfully'')]
                                @ out)))))"

text \<open>Gate 4: the replacements of the blocks that are not patched yet, or the first block
  the builder fails on.\<close>

fun build_patches :: "block_info list \<Rightarrow> (block_info \<times> build_msg) + patch list" where
  "build_patches [] = Inr []"
| "build_patches (b # bs) =
     (if is_already_patched (block b) then build_patches bs
      else (case build_replacement b of
              (replacement, ok, msg) \<Rightarrow>
                (case replacement of
                   None \<Rightarrow> Inl (b, msg)
                 | Some r \<Rightarrow>
                     if \<not> ok then Inl (b, msg)
                     else (case build_patches bs of
                             Inl err \<Rightarrow> Inl err
                           | Inr ps \<Rightarrow> Inr ((offset b, length_b b, block b, r) # ps)))))"

text \<open>Gate 6 on the sorted list: some patch ends after the next one starts.\<close>

fun overlapping :: "patch list \<Rightarrow> bool" where
  "overlapping (p # q # ps) = (fst p + fst (snd p) > fst q \<or> overlapping (q # ps))"
| "overlapping ps = False"

text \<open>Gates 5 and 6, the dry run, and the rest.\<close>

definition main_gates :: "args \<Rightarrow> env \<Rightarrow> files \<Rightarrow> string \<Rightarrow> bytes \<Rightarrow> patch list \<Rightarrow> result" where
  "main_gates a e fs binary data patches =
     (if list_ex (\<lambda>(off, len, old, new). length new \<noteq> len) patches then
        (fs, 0, Length_mismatch,
         [(Error, ''Size mismatch at offset {offset:,}: original {length} bytes, replacement {len(new)} bytes''),
          (Info, ''Aborting - no changes made.'')])
      else if overlapping (sort_key fst patches) then
        (fs, 0, Overlap,
         [(Success, ''All {len(patches)} replacements verified (exact byte match)''),
          (Error, ''Overlapping patches: offset {a:,} (ends at {end_i:,}) overlaps with offset {start_next:,}''),
          (Info, ''Aborting - no changes made.'')])
      else if arg_dry_run a then
        (fs, 0, Dry_run_complete,
         [(Success, ''All {len(patches)} replacements verified (exact byte match)''),
          (Header, ''Dry run complete''),
          (Info, ''Would patch {len(patches)} blocks in {binary}'')]
         @ map (\<lambda>p. (Info, ''  offset {offset:>12,}: {length} bytes'')) patches
         @ [(Plain, ''''), (Info, ''Run without --dry-run to apply patches.'')])
      else
        (case main_apply e fs binary data patches of
           (fs1, rc, oc, out) \<Rightarrow>
             (fs1, rc, oc,
              (Success, ''All {len(patches)} replacements verified (exact byte match)'') # out)))"

text \<open>Gates 3 and 4: detection, the report, and the replacements.\<close>

definition main_detect :: "args \<Rightarrow> env \<Rightarrow> files \<Rightarrow> string \<Rightarrow> bytes \<Rightarrow> result" where
  "main_detect a e fs binary data =
     (let blocks = find_mascot_blocks data
      in if blocks = [] then
           (fs, 0, No_blocks,
            [(Header, ''Detecting mascot blocks''),
             (Error, ''No mascot blocks detected in the binary.''),
             (Info, ''This binary may have an unexpected structure (new version?).'')])
         else
           (let needs_patch = length (filter (\<lambda>b. \<not> is_already_patched (block b)) blocks);
                report =
                  (Header, ''Detecting mascot blocks'') #
                  map (\<lambda>b. (Info, if is_already_patched (block b)
                                    then ''  [{kind_label:8}] ... - already patched''
                                    else ''  [{kind_label:8}] ... - stock/unrecognized'')) blocks
                  @ [(Plain, ''''),
                     (Info, ''Found {len(blocks)} blocks: {already_patched} already patched, {needs_patch} to patch'')]
            in if needs_patch = 0 then
                 (fs, 0, Nothing_to_do,
                  report @ [(Success, ''All blocks are already patched! Nothing to do.'')])
               else
                 (case build_patches blocks of
                    Inl (b, msg) \<Rightarrow>
                      (fs, 0, Build_failed,
                       report @
                       [(Header, ''Building replacements''),
                        (Error, ''Cannot build replacement for block at offset {offset:,}: {msg}''),
                        (Info, ''Aborting - no changes made.'')])
                  | Inr patches \<Rightarrow>
                      (case main_gates a e fs binary data patches of
                         (fs1, rc, oc, out) \<Rightarrow>
                           (fs1, rc, oc,
                            report @ [(Header, ''Building replacements'')] @ out)))))"

text \<open>\<^verbatim>\<open>args.binary or find_claude_binary()\<close>: an empty path counts as none.\<close>

definition choose_binary :: "args \<Rightarrow> env \<Rightarrow> string option" where
  "choose_binary a e =
     (case arg_binary a of
        None \<Rightarrow> located e
      | Some p \<Rightarrow> if p = [] then located e else Some p)"

definition main :: "args \<Rightarrow> env \<Rightarrow> files \<Rightarrow> result" where
  "main a e fs =
     (case choose_binary a e of
        None \<Rightarrow>
          (fs, 0, Binary_not_located,
           [(Header, ''Clawd Mascot Patcher - #29 Winged Eye''), (Plain, ''''),
            (Error, ''Could not find Claude Code binary.''),
            (Info, ''Use --binary PATH to specify it manually.'')])
      | Some binary \<Rightarrow>
          (let intro = [(Header, ''Clawd Mascot Patcher - #29 Winged Eye''), (Plain, ''''),
                        (Info, ''Binary: {binary}'')]
           in case fs binary of
                None \<Rightarrow> (fs, 0, Binary_not_found, intro @ [(Error, ''Binary not found at {binary}'')])
              | Some data \<Rightarrow>
                  if \<not> readable e binary then
                    (fs, 0, Binary_not_readable,
                     intro @ [(Error, ''Binary is not readable: {binary}'')])
                  else if arg_restore a then
                    (case main_restore e fs binary of
                       (fs1, rc, oc, out) \<Rightarrow> (fs1, rc, oc, intro @ out))
                  else if \<not> verify_binary_runs e fs binary then
                    (fs, 0, Binary_fails_to_run,
                     intro @
                     [(Info, ''Verifying binary runs...''),
                      (Error, ''Binary fails to run (claude --version failed).''),
                      (Info, ''The binary may already be corrupted. Try --restore if a backup exists.'')])
                  else
                    (case main_detect a e fs binary data of
                       (fs1, rc, oc, out) \<Rightarrow>
                         (fs1, rc, oc,
                          intro @
                          [(Info, ''Verifying binary runs...''), (Success, ''Binary runs OK''),
                           (Info, ''Reading binary...''),
                           (Info, ''Binary size: {len(data):,} bytes'')]
                          @ out))))"

text \<open>A cooperative environment: the file is readable, every image runs, signing succeeds and
  leaves the bytes alone, copies and writes succeed.\<close>

definition good_env :: env where
  "good_env = \<lparr>located = None, readable = (\<lambda>p. True), runs = (\<lambda>c. True),
                sign = (\<lambda>c. (True, c)), copy_ok = (\<lambda>s d. True), write_ok = (\<lambda>p. True)\<rparr>"

definition apply_args :: args where
  "apply_args = \<lparr>arg_dry_run = False, arg_restore = False, arg_binary = Some ''claude'',
                  arg_no_color = True\<rparr>"

definition stock_fs :: files where
  "stock_fs = Map.empty(''claude'' \<mapsto> stock_image)"

text \<open>The components of a result.\<close>

definition res_files :: "result \<Rightarrow> files" where
  "res_files r = fst r"

definition res_code :: "result \<Rightarrow> int" where
  "res_code r = fst (snd r)"

definition res_outcome :: "result \<Rightarrow> outcome" where
  "res_outcome r = fst (snd (snd r))"

definition res_output :: "result \<Rightarrow> diag list" where
  "res_output r = snd (snd (snd r))"


definition reported :: "diag list \<Rightarrow> bool" where
  "reported out \<longleftrightarrow> list_ex (\<lambda>d. fst d = Error \<or> fst d = Warn) out"

text \<open>The outcomes reached after the patched image has replaced the binary.\<close>

definition written :: "outcome \<Rightarrow> bool" where
  "written oc \<longleftrightarrow> oc = Done \<or> oc = Codesign_failed \<or> oc = Verification_failed"

text \<open>The byte range of a patch.\<close>

definition range_of :: "patch \<Rightarrow> nat set" where
  "range_of p = {fst p ..< fst p + fst (snd p)}"

text \<open>The stock image, the block detected in it, and what the builder makes of it.\<close>

definition stock_info :: block_info where
  "stock_info = \<lparr>kind = Full_function, offset = 8, length_b = 438, block = stock_block,
                   func_name = Some ''f'', react_var = ''c'', flex_var = ''t'', text_var = ''w''\<rparr>"

definition patched_block :: bytes where
  "patched_block = candidate stock_info (fillers 6) ROW3_PLUS2"

definition patched_image :: bytes where
  "patched_image = ''var a=1;'' @ patched_block @ '';var b=2;''"

section \<open>The run of the credential-cache script\<close>










definition tiny_fs :: "bytes \<Rightarrow> files" where
  "tiny_fs content = Map.empty(''claude'' \<mapsto> content)"

(*MODEL-END*)

section \<open>Properties of the replacement builder\<close>

lemma length_fillers: "length (fillers n) = 3 * n"
  by (induction n) (simp_all add: fillers_def)

lemma length_candidate:
  "length (candidate b p s) = length (candidate b [] []) + length p + length s"
  by (simp add: candidate_def wrap_kind_def render_inner_def render_row1_def render_row3_def)

lemma length_rows3:
  "length ROW3_PLUS1 = length ROW3_BASE + 1" "length ROW3_PLUS2 = length ROW3_BASE + 2"
  by (simp_all add: ROW3_PLUS1_def ROW3_PLUS2_def ROW3_BASE_def esc_u_def)

lemma length_row3_for:
  "0 \<le> r \<Longrightarrow> r < 3 \<Longrightarrow> length (row3_for r) = length ROW3_BASE + nat r"
  by (auto simp: row3_for_def length_rows3)

lemma length_candidate_core:
  "int (length (candidate b p s))
     = int (core_len b) - int (length ROW3_BASE) + int (length p) + int (length s)"
  using length_candidate[of b p s] length_candidate[of b "[]" ROW3_BASE]
  by (simp add: core_len_def)

lemma absorb_remainder_core:
  assumes "0 < d" "d = int (length_b b) - int (core_len b)"
  shows "absorb_remainder b (render_row1 (react_var b) (text_var b) [])
            (render_row2 (react_var b) (text_var b))
            (render_row3 (react_var b) (text_var b) ROW3_BASE) d
         = (render_row3 (react_var b) (text_var b) (row3_for (d mod 3)),
            d - d mod 3, d div 3, 0)"
proof -
  have "d mod 3 = 0 \<or> d mod 3 = 1 \<or> d mod 3 = 2" by presburger
  then consider "d mod 3 = 0" | "d mod 3 = 1" | "d mod 3 = 2" by blast
  then show ?thesis
  proof cases
    case 1
    then show ?thesis by (simp add: absorb_remainder_def row3_for_def Let_def)
  next
    case 2
    have "int (length_b b) - int (length (candidate b [] ROW3_PLUS1)) = d - 1"
      using assms length_candidate_core[of b "[]" ROW3_PLUS1] by (simp add: length_rows3)
    moreover have "(d - 1) mod 3 = 0" "(d - 1) div 3 = d div 3" using 2 by presburger+
    ultimately show ?thesis using 2
      by (simp add: absorb_remainder_def row3_for_def Let_def candidate_def)
  next
    case 3
    have "int (length_b b) - int (length (candidate b [] ROW3_PLUS2)) = d - 2"
      using assms length_candidate_core[of b "[]" ROW3_PLUS2] by (simp add: length_rows3)
    moreover have "(d - 2) mod 3 = 0" "(d - 2) div 3 = d div 3" using 3 by presburger+
    ultimately show ?thesis using 3
      by (simp add: absorb_remainder_def row3_for_def Let_def candidate_def)
  qed
qed

lemma build_replacement_neg:
  assumes "int (length_b b) - int (core_len b) < 0"
  shows "build_replacement b =
           (None, False,
            Too_long (int (core_len b) - int (length_b b)) (int (core_len b)) (int (length_b b)))"
  using assms by (simp add: build_replacement_def Let_def core_len_def candidate_def)

lemma build_replacement_zero:
  assumes "int (length_b b) - int (core_len b) = 0"
  shows "build_replacement b = (Some (candidate b [] ROW3_BASE), True, Exact_fit)"
  using assms by (simp add: build_replacement_def Let_def core_len_def candidate_def)

lemma length_padded_candidate:
  assumes "0 \<le> d" "d = int (length_b b) - int (core_len b)"
  shows "length (candidate b (fillers (nat (d div 3))) (row3_for (d mod 3))) = length_b b"
proof -
  have r: "0 \<le> d mod 3" "d mod 3 < 3" by simp_all
  have nn: "0 \<le> d div 3" using assms by simp
  have "int (length (candidate b (fillers (nat (d div 3))) (row3_for (d mod 3))))
          = int (core_len b) + 3 * (d div 3) + d mod 3"
    using length_candidate_core[of b "fillers (nat (d div 3))" "row3_for (d mod 3)"]
      length_row3_for[OF r] nn
    by (simp add: length_fillers)
  also have "\<dots> = int (core_len b) + d" by presburger
  also have "\<dots> = int (length_b b)" using assms by simp
  finally show ?thesis by simp
qed

lemma build_replacement_pos:
  assumes "0 < d" "d = int (length_b b) - int (core_len b)"
  shows "build_replacement b =
           (Some (candidate b (fillers (nat (d div 3))) (row3_for (d mod 3))), True,
            Padded (d div 3))"
proof -
  have nn: "0 \<le> d div 3" using assms by simp
  have "int (length (candidate b (fillers (nat (d div 3))) (row3_for (d mod 3))))
          = int (length_b b)"
    using length_padded_candidate[of d b] assms by simp
  with nn show ?thesis
    using assms absorb_remainder_core[OF assms]
    by (simp add: build_replacement_def Let_def core_len_def[symmetric]
        candidate_def[symmetric] fillers_def[symmetric])
qed

text \<open>What the builder returns, by the sign of the deficit.\<close>

lemma build_replacement_cases:
  "build_replacement b =
     (let d = int (length_b b) - int (core_len b)
      in if d < 0 then (None, False, Too_long (- d) (int (core_len b)) (int (length_b b)))
         else if d = 0 then (Some (candidate b [] ROW3_BASE), True, Exact_fit)
         else (Some (candidate b (fillers (nat (d div 3))) (row3_for (d mod 3))), True,
               Padded (d div 3)))"
proof -
  let ?d = "int (length_b b) - int (core_len b)"
  consider "?d < 0" | "?d = 0" | "0 < ?d" by linarith
  then show ?thesis
  proof cases
    case 1 then show ?thesis using build_replacement_neg[of b] by (simp add: Let_def)
  next
    case 2 then show ?thesis using build_replacement_zero[of b] by (simp add: Let_def)
  next
    case 3 then show ?thesis using build_replacement_pos[of ?d b] by (simp add: Let_def)
  qed
qed

lemma build_replacement_length:
  assumes "build_replacement b = (r, True, msg)"
  shows "\<exists>rep. r = Some rep \<and> length rep = length_b b"
proof -
  let ?d = "int (length_b b) - int (core_len b)"
  from assms have nn: "0 \<le> ?d"
    by (auto simp: build_replacement_cases Let_def split: if_splits)
  show ?thesis
  proof (cases "?d = 0")
    case True
    with assms show ?thesis
      by (auto simp: build_replacement_cases Let_def core_len_def)
  next
    case False
    with nn have "0 < ?d" by simp
    with assms length_padded_candidate[of ?d b] show ?thesis
      by (auto simp: build_replacement_cases Let_def)
  qed
qed

lemma core_len_sample:
  "core_len (sample_block Full_function n) = 418" "core_len (sample_block Return_block n) = 404"
  by (simp_all add: core_len_def candidate_def sample_block_def wrap_kind_def fmt_name_def
      render_inner_def render_row1_def render_row2_def render_row3_def ROW1_STR_def
      ROW2_WING_def ROW2_EYE_def ROW3_BASE_def ROW1_COLOR_def ROW2_WING_COLOR_def
      ROW2_EYE_COLOR_def ROW3_COLOR_def esc_u_def)

text \<open>
  Claim C4. When the target length exceeds the length of the core candidate by a deficit
  \<open>d\<close> among 0, 1, 2, 3, 4, 5 and 47, the builder succeeds with the candidate that has
  \<open>d mod 3\<close> more spaces in the row-3 literal and \<open>d div 3\<close> three-byte fillers in row 1,
  and that candidate is exactly as long as the target; when the deficit is negative the
  builder fails and returns no bytes.
\<close>

theorem padding_solver_correct:
  "(d \<in> {0, 1, 2, 3, 4, 5, 47} \<and> int (length_b b) - int (core_len b) = d \<longrightarrow>
      (\<exists>msg. build_replacement b =
         (Some (candidate b (fillers (nat (d div 3))) (row3_for (d mod 3))), True, msg))
      \<and> length (candidate b (fillers (nat (d div 3))) (row3_for (d mod 3))) = length_b b
      \<and> length (row3_for (d mod 3)) = length ROW3_BASE + nat (d mod 3)
      \<and> length (fillers (nat (d div 3))) = 3 * nat (d div 3))
   \<and> (int (length_b b) - int (core_len b) < 0 \<longrightarrow>
        (\<exists>msg. build_replacement b = (None, False, msg)))"
proof (intro conjI impI)
  assume a: "d \<in> {0, 1, 2, 3, 4, 5, 47} \<and> int (length_b b) - int (core_len b) = d"
  then have dd: "d = int (length_b b) - int (core_len b)" by simp
  from a have "d \<in> {0, 1, 2, 3, 4, 5, 47}" by simp
  then have nn: "0 \<le> d" by auto
  show "\<exists>msg. build_replacement b =
         (Some (candidate b (fillers (nat (d div 3))) (row3_for (d mod 3))), True, msg)"
  proof (cases "d = 0")
    case True
    then have "build_replacement b = (Some (candidate b [] ROW3_BASE), True, Exact_fit)"
      using build_replacement_zero[of b] dd by simp
    moreover have "candidate b (fillers (nat (d div 3))) (row3_for (d mod 3))
                     = candidate b [] ROW3_BASE"
      using True by (simp add: fillers_def row3_for_def)
    ultimately show ?thesis by simp
  next
    case False
    with nn have "0 < d" by simp
    from build_replacement_pos[OF this dd] show ?thesis by blast
  qed
  show "length (candidate b (fillers (nat (d div 3))) (row3_for (d mod 3))) = length_b b"
    by (rule length_padded_candidate[OF nn dd])
  show "length (row3_for (d mod 3)) = length ROW3_BASE + nat (d mod 3)"
    by (rule length_row3_for) simp_all
  show "length (fillers (nat (d div 3))) = 3 * nat (d div 3)"
    by (rule length_fillers)
next
  assume "int (length_b b) - int (core_len b) < 0"
  from build_replacement_neg[OF this]
  show "\<exists>msg. build_replacement b = (None, False, msg)" by blast
qed

theorem padding_solver_correct_witness:
  "(\<exists>msg. build_replacement (sample_block Full_function 465) =
      (Some (candidate (sample_block Full_function 465) (fillers 15) ROW3_PLUS2), True, msg))
   \<and> length (candidate (sample_block Full_function 465) (fillers 15) ROW3_PLUS2) = 465
   \<and> (\<exists>msg. build_replacement (sample_block Full_function 210) = (None, False, msg))"
proof -
  have l: "length_b (sample_block Full_function n) = n" for n
    by (simp add: sample_block_def)
  have h1: "(47::int) \<in> {0, 1, 2, 3, 4, 5, 47}
        \<and> int (length_b (sample_block Full_function 465))
            - int (core_len (sample_block Full_function 465)) = 47"
    by (simp add: core_len_sample l)
  have h2: "int (length_b (sample_block Full_function 210))
                   - int (core_len (sample_block Full_function 210)) < 0"
    by (simp add: core_len_sample l)
  have e: "nat (47 div 3) = 15" "row3_for (47 mod 3) = ROW3_PLUS2"
    by (simp_all add: row3_for_def)
  from padding_solver_correct[of 47 "sample_block Full_function 465"] h1
  have "(\<exists>msg. build_replacement (sample_block Full_function 465) =
      (Some (candidate (sample_block Full_function 465) (fillers 15) ROW3_PLUS2), True, msg))
   \<and> length (candidate (sample_block Full_function 465) (fillers 15) ROW3_PLUS2) = 465"
    unfolding e l by blast
  moreover from padding_solver_correct[of 0 "sample_block Full_function 210"] h2
  have "\<exists>msg. build_replacement (sample_block Full_function 210) = (None, False, msg)"
    by blast
  ultimately show ?thesis by blast
qed

lemma render_row1_split:
  "render_row1 r t p
          = (r @ ''.createElement('' @ t @ '',{'') @ PATCHED_FINGERPRINT @ (p @ '')'')"
    by (simp add: render_row1_def PATCHED_FINGERPRINT_def ROW1_COLOR_def ROW1_STR_def)

lemma bytes_in_append: "bytes_in f x \<Longrightarrow> bytes_in f (a @ x @ c)"
  unfolding bytes_in_def sublist_def by (metis append.assoc)

lemma bytes_in_self: "bytes_in f (a @ f @ c)"
  unfolding bytes_in_def sublist_def by blast

lemma candidate_fingerprint: "is_already_patched (candidate b p s)"
proof -
  have r1: "bytes_in PATCHED_FINGERPRINT (render_row1 r t p)" for r t
    unfolding render_row1_split by (rule bytes_in_self)
  have "bytes_in PATCHED_FINGERPRINT (render_inner r f (render_row1 r t p) x y)" for r f t x y
    unfolding render_inner_def
    using bytes_in_append[OF r1, of "r @ ''.createElement('' @ f @ '',{flexDirection:\"column\",alignItems:\"center\"},''" r t "'','' @ x @ '','' @ y @ '')''"]
    by simp
  then show ?thesis
    unfolding is_already_patched_def candidate_def wrap_kind_def
    using bytes_in_append[of PATCHED_FINGERPRINT _ "''function '' @ fmt_name (func_name b) @ ''(){return ''" "''}''"]
      bytes_in_append[of PATCHED_FINGERPRINT _ "''return ''" "[]"]
    by simp
qed

text \<open>
  Claim C10. Every byte string the builder returns with success contains the patched
  fingerprint, whatever the block kind, the identifiers and the amount of padding.
\<close>

theorem replacement_has_fingerprint:
  "build_replacement b = (Some rep, True, msg) \<Longrightarrow> is_already_patched rep"
proof -
  assume a: "build_replacement b = (Some rep, True, msg)"
  let ?d = "int (length_b b) - int (core_len b)"
  consider "?d < 0" | "?d = 0" | "0 < ?d" by linarith
  then show ?thesis
  proof cases
    case 1
    from build_replacement_neg[OF 1] a show ?thesis by simp
  next
    case 2
    from build_replacement_zero[OF 2] a have "rep = candidate b [] ROW3_BASE" by simp
    then show ?thesis by (simp only: candidate_fingerprint)
  next
    case 3
    from build_replacement_pos[OF 3 refl] a
    have "rep = candidate b (fillers (nat (?d div 3))) (row3_for (?d mod 3))" by simp
    then show ?thesis by (simp only: candidate_fingerprint)
  qed
qed

theorem replacement_has_fingerprint_witness:
  "build_replacement (sample_block Return_block 451)
     = (Some (candidate (sample_block Return_block 451) (fillers 15) ROW3_PLUS2), True, Padded 15)
   \<and> is_already_patched (candidate (sample_block Return_block 451) (fillers 15) ROW3_PLUS2)"
proof -
  have l: "length_b (sample_block Return_block 451) = 451"
    by (simp add: sample_block_def)
  have d: "(47::int) = int (length_b (sample_block Return_block 451))
                  - int (core_len (sample_block Return_block 451))"
    unfolding l core_len_sample by simp
  have e: "nat (47 div 3) = 15" "row3_for (47 mod 3) = ROW3_PLUS2" "(47::int) div 3 = 15" "nat (15::int) = 15"
    by (simp_all add: row3_for_def)
  have p: "(0::int) < 47" by simp
  have b: "build_replacement (sample_block Return_block 451)
     = (Some (candidate (sample_block Return_block 451) (fillers 15) ROW3_PLUS2), True, Padded 15)"
    using build_replacement_pos[OF p d] unfolding e .
  from replacement_has_fingerprint[OF b] b show ?thesis by (rule conjI[rotated])
qed

section \<open>Properties of the delimiter extractor\<close>

lemma depth_append:
  "depth oc cc (xs @ ys) = depth oc cc xs + depth oc cc ys"
  by (induction xs) simp_all

lemma depth_snoc:
  "depth oc cc (xs @ [b]) = depth oc cc xs + (if b = oc then 1 else if b = cc then - 1 else 0)"
  by (simp add: depth_append)

lemma never_negative_iff:
  "never_negative oc cc d s \<longleftrightarrow> (\<forall>k. 0 < k \<and> k \<le> length s \<longrightarrow> 0 \<le> d + depth oc cc (take k s))"
proof (induction s arbitrary: d)
  case Nil
  then show ?case by simp
next
  case (Cons b s)
  let ?e = "(if b = oc then 1 else if b = cc then - 1 else 0 :: int)"
  have "(\<forall>k. 0 < k \<and> k \<le> length (b # s) \<longrightarrow> 0 \<le> d + depth oc cc (take k (b # s)))
        \<longleftrightarrow> (0 \<le> d + ?e \<and> (\<forall>k. 0 < k \<and> k \<le> length s \<longrightarrow> 0 \<le> d + ?e + depth oc cc (take k s)))"
    (is "?L \<longleftrightarrow> ?R")
  proof
    assume l: ?L
    have "0 \<le> d + ?e" using l[rule_format, of 1] by simp
    moreover have "0 \<le> d + ?e + depth oc cc (take k s)" if "0 < k \<and> k \<le> length s" for k
      using l[rule_format, of "Suc k"] that by (simp add: add.assoc)
    ultimately show ?R by blast
  next
    assume r: ?R
    show ?L
    proof (intro allI impI)
      fix k assume k: "0 < k \<and> k \<le> length (b # s)"
      then obtain j where j: "k = Suc j" by (cases k) auto
      show "0 \<le> d + depth oc cc (take k (b # s))"
      proof (cases "j = 0")
        case True
        with r j show ?thesis by simp
      next
        case False
        with r[THEN conjunct2, rule_format, of j] k j show ?thesis by (simp add: add.assoc)
      qed
    qed
  qed
  with Cons.IH[of "d + ?e"] show ?case by (simp add: Let_def)
qed

lemma scan_balanced_stop:
  assumes "oc \<noteq> cc" "b = cc" "oc \<in> set pre" "depth oc cc pre - 1 = 0"
  shows "scan_balanced oc cc (b # rest) (length pre) (depth oc cc pre) (oc \<in> set pre)
           = Suc (length pre)"
  using assms by simp

lemma scan_balanced_step:
  assumes "oc \<noteq> cc" "\<not> (b = cc \<and> oc \<in> set pre \<and> depth oc cc pre - 1 = 0)"
  shows "scan_balanced oc cc (b # rest) (length pre) (depth oc cc pre) (oc \<in> set pre)
           = scan_balanced oc cc rest (length (pre @ [b])) (depth oc cc (pre @ [b]))
               (oc \<in> set (pre @ [b]))"
proof -
  consider "b = oc" | "b \<noteq> oc" "b = cc" | "b \<noteq> oc" "b \<noteq> cc" by blast
  then show ?thesis
  proof cases
    case 1
    then show ?thesis by (simp add: depth_snoc)
  next
    case 2
    with assms show ?thesis by (auto simp: depth_snoc)
  next
    case 3
    then show ?thesis by (simp add: depth_snoc)
  qed
qed

lemma hit_next:
  assumes "oc \<noteq> cc"
  shows "hit oc cc (pre @ b # rest) (Suc (length pre))
           \<longleftrightarrow> b = cc \<and> oc \<in> set pre \<and> depth oc cc pre - 1 = 0"
proof -
  have "take (Suc (length pre)) (pre @ b # rest) = pre @ [b]" by simp
  moreover have "(pre @ b # rest) ! (Suc (length pre) - 1) = b" by simp
  ultimately show ?thesis
    unfolding hit_def using assms by (auto simp: depth_snoc)
qed

lemma scan_balanced_correct:
  assumes "oc \<noteq> cc"
    and "scan_balanced oc cc rest (length pre) (depth oc cc pre) (oc \<in> set pre) = n"
  shows "(n = 0 \<longrightarrow> (\<forall>k. length pre < k \<longrightarrow> \<not> hit oc cc (pre @ rest) k))
       \<and> (0 < n \<longrightarrow> length pre < n \<and> hit oc cc (pre @ rest) n
              \<and> (\<forall>k. length pre < k \<and> k < n \<longrightarrow> \<not> hit oc cc (pre @ rest) k))"
  using assms(2)
proof (induction rest arbitrary: pre)
  case Nil
  then show ?case by (simp add: hit_def)
next
  case (Cons b rest)
  show ?case
  proof (cases "b = cc \<and> oc \<in> set pre \<and> depth oc cc pre - 1 = 0")
    case True
    then have n: "n = Suc (length pre)"
      using scan_balanced_stop[OF assms(1), of b pre rest] Cons.prems by simp
    have "hit oc cc (pre @ b # rest) (Suc (length pre))"
      using hit_next[OF assms(1), of pre b rest] True by simp
    moreover have "\<not> (length pre < k \<and> k < Suc (length pre))" for k by arith
    ultimately show ?thesis using n by blast
  next
    case False
    have nh: "\<not> hit oc cc (pre @ b # rest) (Suc (length pre))"
      using hit_next[OF assms(1), of pre b rest] False by simp
    have "scan_balanced oc cc rest (length (pre @ [b])) (depth oc cc (pre @ [b]))
               (oc \<in> set (pre @ [b])) = n"
      using scan_balanced_step[OF assms(1) False, of rest] Cons.prems by simp
    from Cons.IH[OF this]
    have ih0: "n = 0 \<Longrightarrow> \<forall>k. Suc (length pre) < k \<longrightarrow> \<not> hit oc cc (pre @ b # rest) k"
      and ih1: "0 < n \<Longrightarrow> Suc (length pre) < n \<and> hit oc cc (pre @ b # rest) n
              \<and> (\<forall>k. Suc (length pre) < k \<and> k < n \<longrightarrow> \<not> hit oc cc (pre @ b # rest) k)"
      by simp_all
    have a: "\<not> hit oc cc (pre @ b # rest) k" if "n = 0" "length pre < k" for k
    proof (cases "k = Suc (length pre)")
      case True with nh show ?thesis by simp
    next
      case False with that ih0 show ?thesis by simp
    qed
    have b: "\<not> hit oc cc (pre @ b # rest) k" if "0 < n" "length pre < k" "k < n" for k
    proof (cases "k = Suc (length pre)")
      case True with nh show ?thesis by simp
    next
      case False with that ih1 show ?thesis by simp
    qed
    have c: "length pre < n \<and> hit oc cc (pre @ b # rest) n" if "0 < n"
      using ih1[OF that] by simp
    from a b c show ?thesis by blast
  qed
qed

lemma open_close_distinct: "open_of knd \<noteq> close_of knd"
  by (simp add: open_of_def close_of_def)

lemma extract_block_scan:
  "extract_block data start knd =
     (let chunk = take 2000 (drop start data);
          n = scan_balanced (open_of knd) (close_of knd) chunk 0 0 False
      in if n = 0 then (None, 0) else (Some (take n chunk), n))"
  by (simp add: extract_block_def open_of_def close_of_def Let_def)

lemma depth_pos_open: "0 < depth oc cc s \<Longrightarrow> oc \<in> set s"
proof (induction s)
  case Nil
  then show ?case by simp
next
  case (Cons b s)
  then show ?case by (cases "b = oc") (auto split: if_splits)
qed

lemma take_Suc_snoc: "k < length s \<Longrightarrow> take (Suc k) s = take k s @ [s ! k]"
  by (rule take_Suc_conv_app_nth)

lemma depth_take_Suc:
  "k < length s \<Longrightarrow> depth oc cc (take (Suc k) s)
     = depth oc cc (take k s) + (if s ! k = oc then 1 else if s ! k = cc then - 1 else 0)"
  by (simp add: take_Suc_conv_app_nth depth_snoc)

text \<open>In a trace that is never negative, the first position after an opener where the
  depth is zero holds a closer.\<close>

lemma balanced_prefix_has_hit:
  assumes ne: "oc \<noteq> cc"
    and nn: "never_negative oc cc 0 p"
    and z: "depth oc cc p = 0"
    and op: "oc \<in> set p"
  shows "\<exists>k. k \<le> length p \<and> hit oc cc p k"
proof -
  define Q where "Q k \<longleftrightarrow> 0 < k \<and> k \<le> length p \<and> oc \<in> set (take k p)
                          \<and> depth oc cc (take k p) = 0" for k
  from op have "0 < length p" by (cases p) auto
  with z op have "Q (length p)" by (simp add: Q_def)
  define k0 where "k0 = (LEAST k. Q k)"
  have q0: "Q k0" unfolding k0_def using \<open>Q (length p)\<close> by (rule LeastI)
  have least: "\<not> Q j" if "j < k0" for j
    using that not_less_Least unfolding k0_def by blast
  from q0 obtain j where j: "k0 = Suc j" "j < length p"
    unfolding Q_def by (cases k0) auto
  have dj: "depth oc cc (take (Suc j) p)
     = depth oc cc (take j p) + (if p ! j = oc then 1 else if p ! j = cc then - 1 else 0)"
    using depth_take_Suc[OF j(2)] .
  have d0: "depth oc cc (take (Suc j) p) = 0" using q0 j by (simp add: Q_def)
  have nnj: "0 \<le> depth oc cc (take j p)"
  proof (cases "j = 0")
    case True then show ?thesis by simp
  next
    case False
    with nn j show ?thesis by (simp add: never_negative_iff)
  qed
  have "p ! j = cc"
  proof (rule ccontr)
    assume nc: "p ! j \<noteq> cc"
    show False
    proof (cases "p ! j = oc")
      case True
      with dj d0 nnj show False by simp
    next
      case False
      with nc dj d0 have dz: "depth oc cc (take j p) = 0" by simp
      have "oc \<in> set (take (Suc j) p)" using q0 j by (simp add: Q_def)
      with False have oin: "oc \<in> set (take j p)"
        by (simp add: take_Suc_conv_app_nth[OF j(2)])
      then have "0 < j" by (cases j) auto
      with dz oin j have "Q j" by (simp add: Q_def)
      with least[of j] j show False by simp
    qed
  qed
  with q0 j have "hit oc cc p k0" by (simp add: hit_def Q_def)
  moreover from q0 have "k0 \<le> length p" by (simp add: Q_def)
  ultimately show ?thesis by blast
qed

lemma hit_prefix:
  assumes "hit oc cc p k" shows "hit oc cc (p @ r) k"
  using assms by (auto simp: hit_def nth_append)

lemma hit_take:
  assumes "hit oc cc s k" "k \<le> n" shows "hit oc cc (take n s) k"
  using assms by (auto simp: hit_def min_def)

text \<open>The first hit of a never-negative trace: the depth is one just before it and it is
  the only return to zero up to there.\<close>

lemma first_hit_trace:
  assumes ne: "oc \<noteq> cc"
    and h: "hit oc cc s n"
    and first: "\<forall>k. 0 < k \<and> k < n \<longrightarrow> \<not> hit oc cc s k"
    and nn: "\<forall>k. 0 < k \<and> k \<le> n \<longrightarrow> 0 \<le> depth oc cc (take k s)"
  shows "depth oc cc (take (n - 1) s) = 1"
    and "returns_to_zero oc cc (take n s) k \<longleftrightarrow> k = n"
proof -
  from h obtain m where m: "n = Suc m" "m < length s" "s ! m = cc"
    and dn: "depth oc cc (take n s) = 0"
    unfolding hit_def by (cases n) auto
  from depth_take_Suc[OF m(2), of oc cc] m dn ne
  show one: "depth oc cc (take (n - 1) s) = 1" by simp
  have len: "length (take n s) = n" using m by simp
  show "returns_to_zero oc cc (take n s) k \<longleftrightarrow> k = n"
  proof
    assume r: "returns_to_zero oc cc (take n s) k"
    show "k = n"
    proof (rule ccontr)
      assume "k \<noteq> n"
      with r len have kn: "0 < k" "k < n" by (auto simp: returns_to_zero_def)
      then obtain j where j: "k = Suc j" "j < length s" using m by (cases k) auto
      from r kn have dk: "depth oc cc (take k s) = 0" and dj: "depth oc cc (take j s) \<noteq> 0"
        using j by (auto simp: returns_to_zero_def min_def)
      have "0 \<le> depth oc cc (take j s)"
      proof (cases "j = 0")
        case True then show ?thesis by simp
      next
        case False
        with nn kn j show ?thesis by simp
      qed
      with dj have pos: "0 < depth oc cc (take j s)" by simp
      from depth_take_Suc[OF j(2), of oc cc] dk j pos
      have c: "s ! j = cc" by (auto split: if_splits)
      from depth_pos_open[OF pos] have "oc \<in> set (take k s)"
        using j by (simp add: take_Suc_conv_app_nth)
      with c dk j kn have "hit oc cc s k" by (simp add: hit_def)
      with first kn show False by blast
    qed
  next
    assume "k = n"
    with one dn m len show "returns_to_zero oc cc (take n s) k"
      by (simp add: returns_to_zero_def)
  qed
qed

text \<open>Between two positions the depth moves by one at a time, so it cannot leave the
  positive numbers without passing zero.\<close>

lemma depth_stays_positive:
  assumes "0 < depth oc cc (take j s)" "j \<le> k" "k \<le> length s"
    and "\<forall>i. j < i \<and> i \<le> k \<longrightarrow> depth oc cc (take i s) \<noteq> 0"
  shows "0 < depth oc cc (take k s)"
  using assms(2,3,4)
proof (induction k)
  case 0
  with assms(1) show ?case by simp
next
  case (Suc k)
  show ?case
  proof (cases "j = Suc k")
    case True
    with assms(1) show ?thesis by simp
  next
    case False
    with Suc.prems have jk: "j \<le> k" "k < length s" by simp_all
    from Suc.prems have "\<forall>i. j < i \<and> i \<le> k \<longrightarrow> depth oc cc (take i s) \<noteq> 0" by simp
    with Suc.IH jk have pos: "0 < depth oc cc (take k s)" by simp
    from Suc.prems jk have nz: "depth oc cc (take (Suc k) s) \<noteq> 0" by simp
    from depth_take_Suc[OF jk(2), of oc cc] pos nz show ?thesis
      by (simp split: if_splits)
  qed
qed

text \<open>The loop has a stopping position exactly when the depth comes back to zero after
  having been positive.\<close>

lemma hit_iff_return:
  assumes ne: "oc \<noteq> cc"
  shows "(\<exists>k. hit oc cc s k) \<longleftrightarrow>
         (\<exists>k\<le>length s. depth oc cc (take k s) = 0 \<and> (\<exists>j<k. 0 < depth oc cc (take j s)))"
proof
  assume "\<exists>k. hit oc cc s k"
  then obtain k where h: "hit oc cc s k" by blast
  then obtain m where m: "k = Suc m" "m < length s" "s ! m = cc"
    and d: "depth oc cc (take k s) = 0"
    unfolding hit_def by (cases k) auto
  from depth_take_Suc[OF m(2), of oc cc] m d ne
  have "depth oc cc (take m s) = 1" by simp
  with m d show "\<exists>k\<le>length s. depth oc cc (take k s) = 0 \<and> (\<exists>j<k. 0 < depth oc cc (take j s))"
    by (intro exI[of _ k]) auto
next
  assume "\<exists>k\<le>length s. depth oc cc (take k s) = 0 \<and> (\<exists>j<k. 0 < depth oc cc (take j s))"
  then obtain k j where k: "k \<le> length s" "depth oc cc (take k s) = 0"
    and j: "j < k" "0 < depth oc cc (take j s)" by blast
  define Q where "Q i \<longleftrightarrow> j < i \<and> depth oc cc (take i s) = 0" for i
  from k j have "Q k" by (simp add: Q_def)
  define k0 where "k0 = (LEAST i. Q i)"
  have q0: "Q k0" unfolding k0_def using \<open>Q k\<close> by (rule LeastI)
  have k0le: "k0 \<le> k" unfolding k0_def using \<open>Q k\<close> by (rule Least_le)
  have least: "\<not> Q i" if "i < k0" for i
    using that not_less_Least unfolding k0_def by blast
  from q0 obtain m where m: "k0 = Suc m" "j \<le> m" unfolding Q_def by (cases k0) auto
  from k0le k m have ml: "m < length s" by simp
  have "\<forall>i. j < i \<and> i \<le> m \<longrightarrow> depth oc cc (take i s) \<noteq> 0"
    using least m unfolding Q_def by auto
  from depth_stays_positive[OF j(2) m(2) _ this] ml
  have pos: "0 < depth oc cc (take m s)" by simp
  from q0 m have z: "depth oc cc (take (Suc m) s) = 0" by (simp add: Q_def)
  from depth_take_Suc[OF ml, of oc cc] pos z have c: "s ! m = cc"
    by (simp split: if_splits)
  from depth_pos_open[OF pos] have "oc \<in> set (take (Suc m) s)"
    by (simp add: take_Suc_conv_app_nth[OF ml])
  with c z ml have "hit oc cc s (Suc m)" by (simp add: hit_def)
  then show "\<exists>k. hit oc cc s k" by blast
qed

lemma extract_block_None_iff:
  "extract_block data start knd = (None, 0) \<longleftrightarrow>
     \<not> (\<exists>k. hit (open_of knd) (close_of knd) (take 2000 (drop start data)) k)"
proof -
  let ?o = "open_of knd" and ?c = "close_of knd"
  let ?chunk = "take 2000 (drop start data)"
  let ?n = "scan_balanced ?o ?c ?chunk 0 0 False"
  note ne = open_close_distinct[of knd]
  have sc: "(?n = 0 \<longrightarrow> (\<forall>k. 0 < k \<longrightarrow> \<not> hit ?o ?c ?chunk k))
       \<and> (0 < ?n \<longrightarrow> 0 < ?n \<and> hit ?o ?c ?chunk ?n
              \<and> (\<forall>k. 0 < k \<and> k < ?n \<longrightarrow> \<not> hit ?o ?c ?chunk k))"
    using scan_balanced_correct[OF ne, of ?chunk "[]" ?n] by simp
  have h0: "\<not> hit ?o ?c ?chunk 0" by (simp add: hit_def)
  have e: "extract_block data start knd = (None, 0) \<longleftrightarrow> ?n = 0"
    by (simp add: extract_block_scan Let_def)
  show ?thesis
  proof (cases "?n = 0")
    case True
    with sc have "\<not> hit ?o ?c ?chunk k" for k using h0 by (cases "k = 0") auto
    with True e show ?thesis by simp
  next
    case False
    with sc have "hit ?o ?c ?chunk ?n" by simp
    then have "\<exists>k. hit ?o ?c ?chunk k" by (rule exI)
    with False e show ?thesis by simp
  qed
qed

text \<open>
  Claim C5. When the buffer holds, from the start offset on and within the window of 2000
  bytes, a prefix \<open>p\<close> with correctly nested delimiters of the kind (the depth is never
  negative, ends at zero, and there is at least one opener), the extractor returns a span,
  with its length, that is a prefix of \<open>p\<close>; the depth along the span is never negative,
  becomes positive, and comes back to zero exactly once, at the end of the span. The
  extractor returns no span exactly when the delimiters never balance within the window:
  the depth never comes back to zero after having been positive. Closers before the first
  opener do not count as balancing, whatever depth they lead to.
\<close>

theorem balanced_extraction:
  "(prefix p (drop start data) \<and> length p \<le> 2000
      \<and> never_negative (open_of knd) (close_of knd) 0 p
      \<and> depth (open_of knd) (close_of knd) p = 0 \<and> open_of knd \<in> set p \<longrightarrow>
      (\<exists>span. extract_block data start knd = (Some span, length span) \<and> prefix span p
         \<and> never_negative (open_of knd) (close_of knd) 0 span
         \<and> (\<exists>k\<le>length span. 0 < depth (open_of knd) (close_of knd) (take k span))
         \<and> (\<forall>k. returns_to_zero (open_of knd) (close_of knd) span k \<longleftrightarrow> k = length span)))
   \<and> (extract_block data start knd = (None, 0) \<longleftrightarrow>
        \<not> (\<exists>k\<le>length (take 2000 (drop start data)).
              depth (open_of knd) (close_of knd) (take k (take 2000 (drop start data))) = 0
              \<and> (\<exists>j<k. 0 < depth (open_of knd) (close_of knd)
                               (take j (take 2000 (drop start data))))))"
proof (intro conjI impI)
  let ?o = "open_of knd" and ?c = "close_of knd"
  let ?chunk = "take 2000 (drop start data)"
  let ?n = "scan_balanced ?o ?c ?chunk 0 0 False"
  note ne = open_close_distinct[of knd]
  have sc: "(?n = 0 \<longrightarrow> (\<forall>k. 0 < k \<longrightarrow> \<not> hit ?o ?c ?chunk k))
       \<and> (0 < ?n \<longrightarrow> 0 < ?n \<and> hit ?o ?c ?chunk ?n
              \<and> (\<forall>k. 0 < k \<and> k < ?n \<longrightarrow> \<not> hit ?o ?c ?chunk k))"
    using scan_balanced_correct[OF ne, of ?chunk "[]" ?n] by simp
  {
    assume a: "prefix p (drop start data) \<and> length p \<le> 2000
      \<and> never_negative ?o ?c 0 p \<and> depth ?o ?c p = 0 \<and> ?o \<in> set p"
    then obtain r where r: "drop start data = p @ r" by (auto simp: prefix_def)
    with a have chunk: "?chunk = p @ take (2000 - length p) r" by simp
    from a have nn: "\<forall>k. 0 < k \<and> k \<le> length p \<longrightarrow> 0 \<le> depth ?o ?c (take k p)"
      by (simp add: never_negative_iff)
    from a balanced_prefix_has_hit[OF ne, of p]
    obtain k0 where k0: "k0 \<le> length p" "hit ?o ?c p k0" by blast
    then have hk0: "hit ?o ?c ?chunk k0" unfolding chunk by (intro hit_prefix)
    then have k0pos: "0 < k0" by (simp add: hit_def)
    with sc hk0 have npos: "0 < ?n" by (cases "?n = 0") auto
    with sc have hn: "hit ?o ?c ?chunk ?n"
      and first: "\<forall>k. 0 < k \<and> k < ?n \<longrightarrow> \<not> hit ?o ?c ?chunk k" by blast+
    from first hk0 k0pos have "\<not> k0 < ?n" by blast
    with k0 have nle: "?n \<le> length p" by simp
    then have span: "take ?n ?chunk = take ?n p" unfolding chunk by simp
    have tk: "take k ?chunk = take k p" if "k \<le> ?n" for k
      using that nle unfolding chunk by simp
    have nn': "\<forall>k. 0 < k \<and> k \<le> ?n \<longrightarrow> 0 \<le> depth ?o ?c (take k ?chunk)"
      using nn nle tk by auto
    note fh = first_hit_trace[OF ne hn first nn']
    have len: "length (take ?n p) = ?n" using nle by simp
    have e: "extract_block data start knd = (Some (take ?n p), length (take ?n p))"
      using npos span len by (simp add: extract_block_scan Let_def)
    have p1: "prefix (take ?n p) p" by (rule take_is_prefix)
    have p2: "never_negative ?o ?c 0 (take ?n p)"
      using nn nle by (simp add: never_negative_iff min_def)
    have "depth ?o ?c (take (?n - 1) (take ?n p)) = 1"
      using fh(1) tk[of "?n - 1"] by (simp add: min_def)
    then have p3: "\<exists>k\<le>length (take ?n p). 0 < depth ?o ?c (take k (take ?n p))"
      using len by (intro exI[of _ "?n - 1"]) simp
    have p4: "\<forall>k. returns_to_zero ?o ?c (take ?n p) k \<longleftrightarrow> k = length (take ?n p)"
      using fh(2) unfolding span len by blast
    from e p1 p2 p3 p4
    show "\<exists>span. extract_block data start knd = (Some span, length span) \<and> prefix span p
         \<and> never_negative ?o ?c 0 span
         \<and> (\<exists>k\<le>length span. 0 < depth ?o ?c (take k span))
         \<and> (\<forall>k. returns_to_zero ?o ?c span k \<longleftrightarrow> k = length span)"
      by blast
  }
  show "extract_block data start knd = (None, 0) \<longleftrightarrow>
        \<not> (\<exists>k\<le>length ?chunk. depth ?o ?c (take k ?chunk) = 0
              \<and> (\<exists>j<k. 0 < depth ?o ?c (take j ?chunk)))"
    unfolding extract_block_None_iff hit_iff_return[OF ne] ..
qed

theorem balanced_extraction_witness:
  "(\<exists>span. extract_block ''xxfunction f(){a{b}c}yy'' 2 ''function'' = (Some span, length span)
      \<and> prefix span ''function f(){a{b}c}''
      \<and> (\<forall>k. returns_to_zero (CHR ''{'') (CHR ''}'') span k \<longleftrightarrow> k = length span))
   \<and> extract_block ''xxfunction f(){a{b}c}yy'' 2 ''function'' = (Some ''function f(){a{b}c}'', 19)
   \<and> extract_block ''}{'' 0 ''function'' = (None, 0)
   \<and> extract_block ''(('' 0 ''return'' = (None, 0)"
proof -
  let ?p = "''function f(){a{b}c}''"
  let ?s1 = "''}{''" and ?s2 = "''((''"
  have oc: "open_of ''function'' = CHR ''{''" "close_of ''function'' = CHR ''}''"
    "open_of ''return'' = CHR ''(''" "close_of ''return'' = CHR '')''"
    by (simp_all add: open_of_def close_of_def)
  have h1: "prefix ?p (drop 2 ''xxfunction f(){a{b}c}yy'') \<and> length ?p \<le> 2000
      \<and> never_negative (open_of ''function'') (close_of ''function'') 0 ?p
      \<and> depth (open_of ''function'') (close_of ''function'') ?p = 0
      \<and> open_of ''function'' \<in> set ?p"
    by (simp add: open_of_def close_of_def)
  from balanced_extraction[of ?p 2 "''xxfunction f(){a{b}c}yy''" "''function''"] h1
  have c1: "\<exists>span. extract_block ''xxfunction f(){a{b}c}yy'' 2 ''function''
          = (Some span, length span) \<and> prefix span ?p
     \<and> (\<forall>k. returns_to_zero (CHR ''{'') (CHR ''}'') span k \<longleftrightarrow> k = length span)"
    unfolding oc by blast
  have c2: "extract_block ''xxfunction f(){a{b}c}yy'' 2 ''function'' = (Some ?p, 19)"
    by (simp add: extract_block_def)
  have two: "k = 0 \<or> k = Suc 0 \<or> k = Suc (Suc 0)" if "k \<le> Suc (Suc 0)" for k :: nat
    using that by arith
  have h2: "\<not> (\<exists>k\<le>length (take 2000 (drop 0 ?s1)).
              depth (open_of ''function'') (close_of ''function'')
                 (take k (take 2000 (drop 0 ?s1))) = 0
              \<and> (\<exists>j<k. 0 < depth (open_of ''function'') (close_of ''function'')
                               (take j (take 2000 (drop 0 ?s1)))))"
  proof
    assume "\<exists>k\<le>length (take 2000 (drop 0 ?s1)).
              depth (open_of ''function'') (close_of ''function'')
                 (take k (take 2000 (drop 0 ?s1))) = 0
              \<and> (\<exists>j<k. 0 < depth (open_of ''function'') (close_of ''function'')
                               (take j (take 2000 (drop 0 ?s1))))"
    then obtain k j where k: "k \<le> Suc (Suc 0)" and j: "j < k"
      and p: "0 < depth (CHR ''{'') (CHR ''}'') (take j ?s1)"
      unfolding oc by auto
    from j k have "j \<le> Suc (Suc 0)" by simp
    from two[OF this] p show False by auto
  qed
  from balanced_extraction[of "[]" 0 ?s1 "''function''"] h2
  have c3: "extract_block ?s1 0 ''function'' = (None, 0)" by blast
  have h3: "\<not> (\<exists>k\<le>length (take 2000 (drop 0 ?s2)).
              depth (open_of ''return'') (close_of ''return'')
                 (take k (take 2000 (drop 0 ?s2))) = 0
              \<and> (\<exists>j<k. 0 < depth (open_of ''return'') (close_of ''return'')
                               (take j (take 2000 (drop 0 ?s2)))))"
  proof
    assume "\<exists>k\<le>length (take 2000 (drop 0 ?s2)).
              depth (open_of ''return'') (close_of ''return'')
                 (take k (take 2000 (drop 0 ?s2))) = 0
              \<and> (\<exists>j<k. 0 < depth (open_of ''return'') (close_of ''return'')
                               (take j (take 2000 (drop 0 ?s2))))"
    then obtain k j where k: "k \<le> Suc (Suc 0)" and j: "j < k"
      and z: "depth (CHR ''('') (CHR '')'') (take k ?s2) = 0"
      unfolding oc by auto
    from two[OF k] j z show False by auto
  qed
  from balanced_extraction[of "[]" 0 ?s2 "''return''"] h3
  have c4: "extract_block ?s2 0 ''return'' = (None, 0)" by blast
  from c1 c2 c3 c4 show ?thesis by blast
qed

section \<open>Properties of the detection\<close>

lemma scan_balanced_le:
  "scan_balanced oc cc rest i d st \<le> i + length rest"
proof (induction rest arbitrary: i d st)
  case Nil
  then show ?case by simp
next
  case (Cons b rest)
  have r: "scan_balanced oc cc rest (i + 1) d' st' \<le> i + length (b # rest)" for d' st'
    using Cons.IH[of "i + 1" d' st'] by simp
  show ?case using r by simp
qed

lemma extract_block_Some:
  assumes "extract_block data start knd = (Some bs, n)"
  shows "0 < n \<and> bs = take n (drop start data) \<and> length bs = n \<and> start + n \<le> length data"
proof -
  let ?chunk = "take 2000 (drop start data)"
  let ?n = "scan_balanced (open_of knd) (close_of knd) ?chunk 0 0 False"
  from assms have n: "?n \<noteq> 0" "n = ?n" "bs = take ?n ?chunk"
    by (auto simp: extract_block_scan Let_def split: if_splits)
  have le: "?n \<le> length ?chunk" using scan_balanced_le[of _ _ ?chunk 0 0 False] by simp
  then have le2: "?n \<le> 2000" "?n \<le> length data - start" by simp_all
  from le2 have "take ?n ?chunk = take ?n (drop start data)" by (simp add: min_def)
  moreover from le2 n have "start + ?n \<le> length data" by arith
  moreover have "length (take ?n ?chunk) = ?n" using le by simp
  ultimately show ?thesis using n by simp
qed

lemma full_function_block_Some:
  assumes "full_function_block data m = Some b"
  shows "wf_block data b \<and> kind b = Full_function"
proof -
  obtain st fname react flex where m: "m = (st, fname, react, flex)" by (cases m) auto
  obtain obs n where e0: "extract_block data st ''function'' = (obs, n)"
    by (cases "extract_block data st ''function''") auto
  from assms e0 obtain bs where bs: "obs = Some bs"
    unfolding m full_function_block_def by (cases obs) (simp_all split: if_splits)
  from assms e0 bs obtain t where t: "find_text_var bs = Some t"
    unfolding m full_function_block_def
    by (cases "find_text_var bs") (simp_all split: if_splits)
  from e0 bs have e: "extract_block data st ''function'' = (Some bs, n)" by simp
  from assms e t have b: "b = \<lparr>kind = Full_function, offset = st, length_b = n, block = bs,
                 func_name = Some fname, react_var = react, flex_var = flex, text_var = t\<rparr>"
    unfolding m full_function_block_def by (simp split: if_splits)
  from extract_block_Some[OF e] b show ?thesis by (auto simp: wf_block_def)
qed

lemma return_block_Some:
  assumes "return_block data m = Some b"
  shows "wf_block data b \<and> kind b = Return_block \<and> offset b = fst m"
proof -
  obtain st react flex where m: "m = (st, react, flex)" by (cases m) auto
  obtain obs n where e0: "extract_block data st ''return'' = (obs, n)"
    by (cases "extract_block data st ''return''") auto
  from assms e0 obtain bs where bs: "obs = Some bs"
    unfolding m return_block_def by (cases obs) (simp_all split: if_splits)
  from assms e0 bs obtain t where t: "find_text_var bs = Some t"
    unfolding m return_block_def
    by (cases "find_text_var bs") (simp_all split: if_splits)
  from e0 bs have e: "extract_block data st ''return'' = (Some bs, n)" by simp
  from assms e t have b: "b = \<lparr>kind = Return_block, offset = st, length_b = n, block = bs,
                 func_name = None, react_var = react, flex_var = flex, text_var = t\<rparr>"
    unfolding m return_block_def by (simp split: if_splits)
  from extract_block_Some[OF e] b m show ?thesis by (auto simp: wf_block_def)
qed

lemma strategy1_inv:
  assumes "\<forall>b\<in>set blocks. wf_block data b \<and> kind b = Full_function"
  shows "\<forall>b\<in>set (strategy1 data blocks ms). wf_block data b \<and> kind b = Full_function"
  using assms
proof (induction ms arbitrary: blocks)
  case Nil
  then show ?case by simp
next
  case (Cons m ms)
  show ?case
  proof (cases "full_function_block data m")
    case None
    then have eq: "strategy1 data blocks (m # ms) = strategy1 data blocks ms" by simp
    show ?thesis unfolding eq by (rule Cons.IH[OF Cons.prems])
  next
    case (Some b)
    then have eq: "strategy1 data blocks (m # ms) = strategy1 data (blocks @ [b]) ms" by simp
    from Cons.prems full_function_block_Some[OF Some]
    have "\<forall>x\<in>set (blocks @ [b]). wf_block data x \<and> kind x = Full_function" by auto
    then show ?thesis unfolding eq by (rule Cons.IH)
  qed
qed

lemma strategy2_inv:
  assumes "\<forall>b\<in>set blocks. wf_block data b" "no_return_in_full blocks"
  shows "(\<forall>b\<in>set (strategy2 data blocks ms). wf_block data b)
         \<and> no_return_in_full (strategy2 data blocks ms)"
  using assms
proof (induction ms arbitrary: blocks)
  case Nil
  then show ?case by simp
next
  case (Cons m ms)
  show ?case
  proof (cases "inside_full blocks (fst m)")
    case True
    then have eq: "strategy2 data blocks (m # ms) = strategy2 data blocks ms" by simp
    show ?thesis unfolding eq by (rule Cons.IH[OF Cons.prems])
  next
    case False
    show ?thesis
    proof (cases "return_block data m")
      case None
      with False have eq: "strategy2 data blocks (m # ms) = strategy2 data blocks ms" by simp
      show ?thesis unfolding eq by (rule Cons.IH[OF Cons.prems])
    next
      case (Some b)
      with False have eq: "strategy2 data blocks (m # ms) = strategy2 data (blocks @ [b]) ms"
        by simp
      note rb = return_block_Some[OF Some]
      from False rb have out: "\<forall>fb\<in>set blocks.
          \<not> (offset fb \<le> offset b \<and> offset b < offset fb + length_b fb)"
        by (simp add: inside_full_def list_ex_iff)
      have 1: "\<forall>x\<in>set (blocks @ [b]). wf_block data x" using Cons.prems(1) rb by auto
      have 2: "no_return_in_full (blocks @ [b])"
        unfolding no_return_in_full_def
      proof (intro ballI impI)
        fix x y
        assume x: "x \<in> set (blocks @ [b])" and y: "y \<in> set (blocks @ [b])"
          and k: "kind x = Return_block \<and> kind y = Full_function"
        from y k rb have yb: "y \<in> set blocks" by auto
        show "\<not> (offset y \<le> offset x \<and> offset x < offset y + length_b y)"
        proof (cases "x = b")
          case True
          with out yb show ?thesis by blast
        next
          case False
          with x have "x \<in> set blocks" by simp
          with Cons.prems(2) yb k show ?thesis unfolding no_return_in_full_def by blast
        qed
      qed
      show ?thesis unfolding eq by (rule Cons.IH[OF 1 2])
    qed
  qed
qed

lemma find_mascot_blocks_inv:
  "(\<forall>b\<in>set (find_mascot_blocks data). wf_block data b)
   \<and> no_return_in_full (find_mascot_blocks data)"
proof -
  have s1: "\<forall>b\<in>set (strategy1 data [] (finditer_full data)).
              wf_block data b \<and> kind b = Full_function"
    by (rule strategy1_inv) simp
  then have 1: "\<forall>b\<in>set (strategy1 data [] (finditer_full data)). wf_block data b" by blast
  from s1 have 2: "no_return_in_full (strategy1 data [] (finditer_full data))"
    unfolding no_return_in_full_def by auto
  show ?thesis unfolding find_mascot_blocks_def by (rule strategy2_inv[OF 1 2])
qed




section \<open>Properties of the patch set\<close>

lemma build_patches_inv:
  "build_patches blocks = Inr patches \<Longrightarrow>
     \<forall>p\<in>set patches. \<exists>b\<in>set blocks. \<exists>new. p = (offset b, length_b b, block b, new)
        \<and> length new = length_b b \<and> \<not> is_already_patched (block b)"
proof (induction blocks arbitrary: patches)
  case Nil
  then show ?case by simp
next
  case (Cons b bs)
  show ?case
  proof (cases "is_already_patched (block b)")
    case True
    with Cons.prems have "build_patches bs = Inr patches" by simp
    from Cons.IH[OF this] show ?thesis by auto
  next
    case False
    obtain r ok msg where br: "build_replacement b = (r, ok, msg)"
      by (cases "build_replacement b") auto
    from Cons.prems False br obtain rep where r: "r = Some rep"
      by (cases r) simp_all
    from Cons.prems False br r have ok: "ok" by (cases ok) simp_all
    from Cons.prems False br r ok obtain ps where ps: "build_patches bs = Inr ps"
      by (cases "build_patches bs") simp_all
    from Cons.prems False br r ok ps
    have patches: "patches = (offset b, length_b b, block b, rep) # ps" by simp
    from build_replacement_length[of b r msg] br ok r have len: "length rep = length_b b"
      by simp
    from Cons.IH[OF ps] have "\<forall>p\<in>set ps. \<exists>b\<in>set (b # bs). \<exists>new.
        p = (offset b, length_b b, block b, new)
        \<and> length new = length_b b \<and> \<not> is_already_patched (block b)" by auto
    with len False show ?thesis unfolding patches by auto
  qed
qed

lemma slice_assign_length:
  assumes "take len (drop off m) = old" "length old = len" "length new = len"
  shows "length (take off m @ new @ drop (off + len) m) = length m"
proof -
  from assms(1,2) have "length (take len (drop off m)) = len" by simp
  then have "min len (length m - off) = len" by simp
  then have "len = 0 \<or> off + len \<le> length m" by arith
  with assms(3) show ?thesis by auto
qed

lemma apply_patches_length:
  "\<forall>p\<in>set ps. length (snd (snd (snd p))) = fst (snd p)
        \<and> length (fst (snd (snd p))) = fst (snd p) \<Longrightarrow>
   apply_patches m ps = Some m' \<Longrightarrow> length m' = length m"
proof (induction ps arbitrary: m)
  case Nil
  then show ?case by simp
next
  case (Cons p ps)
  obtain off len old new where p: "p = (off, len, old, new)" by (cases p) auto
  from Cons.prems(1) p have l: "length new = len" "length old = len" by simp_all
  from Cons.prems(2) p have a: "take len (drop off m) = old"
    by (simp add: Let_def split: if_splits)
  with Cons.prems(2) p
  have r: "apply_patches (take off m @ new @ drop (off + len) m) ps = Some m'"
    by (simp add: Let_def)
  from Cons.prems(1) have "\<forall>p\<in>set ps. length (snd (snd (snd p))) = fst (snd p)
        \<and> length (fst (snd (snd p))) = fst (snd p)" by simp
  from Cons.IH[OF this r] slice_assign_length[OF a l(2) l(1)] show ?case by simp
qed


lemma overlapping_iff:
  "overlapping ps \<longleftrightarrow>
     (\<exists>i. Suc i < length ps \<and> fst (ps ! Suc i) < fst (ps ! i) + fst (snd (ps ! i)))"
proof (induction ps rule: overlapping.induct)
  case (1 p q ps)
  have "(\<exists>i. Suc i < length (p # q # ps)
            \<and> fst ((p # q # ps) ! Suc i) < fst ((p # q # ps) ! i) + fst (snd ((p # q # ps) ! i)))
        \<longleftrightarrow> fst q < fst p + fst (snd p)
           \<or> (\<exists>j. Suc j < length (q # ps)
                 \<and> fst ((q # ps) ! Suc j) < fst ((q # ps) ! j) + fst (snd ((q # ps) ! j)))"
    (is "?L \<longleftrightarrow> ?A \<or> ?R")
  proof
    assume ?L
    then obtain i where i: "Suc i < length (p # q # ps)"
      "fst ((p # q # ps) ! Suc i) < fst ((p # q # ps) ! i) + fst (snd ((p # q # ps) ! i))"
      by blast
    show "?A \<or> ?R"
    proof (cases i)
      case 0
      with i show ?thesis by simp
    next
      case (Suc j)
      with i have "Suc j < length (q # ps)
          \<and> fst ((q # ps) ! Suc j) < fst ((q # ps) ! j) + fst (snd ((q # ps) ! j))" by simp
      then show ?thesis by blast
    qed
  next
    assume "?A \<or> ?R"
    then show ?L
    proof
      assume ?A
      then have "Suc 0 < length (p # q # ps)
         \<and> fst ((p # q # ps) ! Suc 0) < fst ((p # q # ps) ! 0) + fst (snd ((p # q # ps) ! 0))"
        by simp
      then show ?L by blast
    next
      assume ?R
      then obtain j where "Suc j < length (q # ps)"
        "fst ((q # ps) ! Suc j) < fst ((q # ps) ! j) + fst (snd ((q # ps) ! j))" by blast
      then have "Suc (Suc j) < length (p # q # ps)
         \<and> fst ((p # q # ps) ! Suc (Suc j))
             < fst ((p # q # ps) ! Suc j) + fst (snd ((p # q # ps) ! Suc j))" by simp
      then show ?L by blast
    qed
  qed
  with 1 show ?case by simp
qed simp_all

section \<open>Properties of the run\<close>

lemma res_simps:
  "res_files (fs, rc, oc, out) = fs" "res_code (fs, rc, oc, out) = rc"
  "res_outcome (fs, rc, oc, out) = oc" "res_output (fs, rc, oc, out) = out"
  by (simp_all add: res_files_def res_code_def res_outcome_def res_output_def)


lemma reported_append: "reported (xs @ ys) \<longleftrightarrow> reported xs \<or> reported ys"
  by (simp add: reported_def)

lemma reported_Cons: "reported (x # xs) \<longleftrightarrow> fst x = Error \<or> fst x = Warn \<or> reported xs"
  by (simp add: reported_def)

lemma reported_Nil: "\<not> reported []"
  by (simp add: reported_def)























text \<open>
  Claim C6. When two neighbours of the patch list sorted by offset have byte ranges that
  intersect, the run stops at gate 5 or gate 6 (at gate 6 when every replacement has the
  length of its block), prints an error, returns 0 and leaves every file as it was.
\<close>

theorem overlap_rejected:
  assumes "Suc i < length (sort_key fst patches)"
    and "range_of (sort_key fst patches ! i) \<inter> range_of (sort_key fst patches ! Suc i) \<noteq> {}"
  shows "res_files (main_gates a e fs binary data patches) = fs
     \<and> res_code (main_gates a e fs binary data patches) = 0
     \<and> (res_outcome (main_gates a e fs binary data patches) = Overlap
          \<or> res_outcome (main_gates a e fs binary data patches) = Length_mismatch)
     \<and> (\<not> list_ex (\<lambda>(off, len, old, new). length new \<noteq> len) patches \<longrightarrow>
          res_outcome (main_gates a e fs binary data patches) = Overlap)
     \<and> reported (res_output (main_gates a e fs binary data patches))"
proof -
  let ?s = "sort_key fst patches"
  from assms(2) obtain x where "x \<in> range_of (?s ! i)" "x \<in> range_of (?s ! Suc i)" by blast
  then have "fst (?s ! Suc i) < fst (?s ! i) + fst (snd (?s ! i))"
    by (simp add: range_of_def)
  with assms(1) have ov: "overlapping ?s" unfolding overlapping_iff by blast
  show ?thesis
  proof (cases "list_ex (\<lambda>(off, len, old, new). length new \<noteq> len) patches")
    case True
    then show ?thesis unfolding main_gates_def by (simp add: res_simps reported_Cons)
  next
    case False
    with ov show ?thesis unfolding main_gates_def by (simp add: res_simps reported_Cons)
  qed
qed

theorem overlap_rejected_witness:
  "sort_key fst [(2::nat, 4::nat, ''cdef'', ''wxyz''), (0, 4, ''abcd'', ''ABCD'')]
      = [(0, 4, ''abcd'', ''ABCD''), (2, 4, ''cdef'', ''wxyz'')]
   \<and> res_files (main_gates apply_args good_env (tiny_fs ''abcdefgh'') ''claude'' ''abcdefgh''
          [(2, 4, ''cdef'', ''wxyz''), (0, 4, ''abcd'', ''ABCD'')]) = tiny_fs ''abcdefgh''
   \<and> res_outcome (main_gates apply_args good_env (tiny_fs ''abcdefgh'') ''claude'' ''abcdefgh''
          [(2, 4, ''cdef'', ''wxyz''), (0, 4, ''abcd'', ''ABCD'')]) = Overlap"
proof -
  let ?ps = "[(2::nat, 4::nat, ''cdef'', ''wxyz''), (0, 4, ''abcd'', ''ABCD'')]"
  have s: "sort_key fst ?ps = [(0, 4, ''abcd'', ''ABCD''), (2, 4, ''cdef'', ''wxyz'')]"
    by simp
  have 1: "Suc 0 < length (sort_key fst ?ps)" by simp
  have "(2::nat) \<in> range_of (sort_key fst ?ps ! 0) \<inter> range_of (sort_key fst ?ps ! Suc 0)"
    unfolding s by (simp add: range_of_def)
  then have 2: "range_of (sort_key fst ?ps ! 0) \<inter> range_of (sort_key fst ?ps ! Suc 0) \<noteq> {}"
    by blast
  have 3: "\<not> list_ex (\<lambda>(off, len, old, new). length new \<noteq> len) ?ps" by simp
  from overlap_rejected[OF 1 2, of apply_args good_env "tiny_fs ''abcdefgh''" "''claude''"
      "''abcdefgh''"] 3 s
  show ?thesis by blast
qed








section \<open>A run on the stock image\<close>

lemma stock_image_blocks: "find_mascot_blocks stock_image = [stock_info]"
  by code_simp

lemma stock_block_unpatched: "\<not> is_already_patched stock_block"
  by code_simp

lemma stock_build: "build_replacement stock_info = (Some patched_block, True, Padded 6)"
  by code_simp

lemma stock_apply:
  "apply_patches stock_image [(8, 438, stock_block, patched_block)] = Some patched_image"
  by code_simp

lemma stock_lengths: "length patched_block = 438" "length patched_image = length stock_image"
  by code_simp+

lemma patched_image_blocks: "find_mascot_blocks patched_image = []"
  by code_simp

lemma stock_info_sel:
  "block stock_info = stock_block" "offset stock_info = 8" "length_b stock_info = 438"
  by (simp_all add: stock_info_def)

lemma stock_patches:
  "build_patches (find_mascot_blocks stock_image) = Inr [(8, 438, stock_block, patched_block)]"
  unfolding stock_image_blocks by (simp add: stock_info_sel stock_build stock_block_unpatched)

lemma patched_image_fingerprint: "is_already_patched patched_image"
  unfolding patched_image_def patched_block_def is_already_patched_def
  by (rule bytes_in_append[OF candidate_fingerprint[unfolded is_already_patched_def]])

lemma first_run:
  "res_outcome (main apply_args good_env stock_fs) = Done"
  "res_files (main apply_args good_env stock_fs) ''claude'' = Some patched_image"
  by (simp_all add: main_def choose_binary_def apply_args_def good_env_def stock_fs_def
      verify_binary_runs_def main_detect_def stock_image_blocks stock_patches main_gates_def
      main_apply_def create_backup_def backup_path_def stock_apply stock_lengths
      main_written_def codesign_binary_def res_simps Let_def stock_info_sel
      stock_block_unpatched stock_build del: apply_patches.simps)

lemma second_run:
  assumes "fs ''claude'' = Some patched_image"
  shows "res_outcome (main apply_args good_env fs) = No_blocks"
    and "res_files (main apply_args good_env fs) = fs"
    and "reported (res_output (main apply_args good_env fs))"
  using assms
  by (simp_all add: main_def choose_binary_def apply_args_def good_env_def
      verify_binary_runs_def main_detect_def patched_image_blocks res_simps Let_def
      reported_append reported_Cons)

section \<open>Length invariance\<close>

text \<open>
  Claim C1. A replacement the builder returns with success has the length of its block.
  Every patch built for the blocks detected in an image has a replacement and recorded
  bytes of the recorded length, and the image after all patches are applied has the length
  of the image before.
\<close>

theorem length_invariance:
  "(build_replacement b = (r, True, msg) \<longrightarrow> (\<exists>rep. r = Some rep \<and> length rep = length_b b))
   \<and> (build_patches (find_mascot_blocks data) = Inr patches \<longrightarrow>
        (\<forall>p\<in>set patches. length (snd (snd (snd p))) = fst (snd p)
                          \<and> length (fst (snd (snd p))) = fst (snd p))
        \<and> \<not> list_ex (\<lambda>(off, len, old, new). length new \<noteq> len) patches
        \<and> (\<forall>modified. apply_patches data patches = Some modified \<longrightarrow>
              length modified = length data))"
proof (intro conjI impI)
  assume "build_replacement b = (r, True, msg)"
  then show "\<exists>rep. r = Some rep \<and> length rep = length_b b" by (rule build_replacement_length)
next
  assume bp: "build_patches (find_mascot_blocks data) = Inr patches"
  show all: "\<forall>p\<in>set patches. length (snd (snd (snd p))) = fst (snd p)
                          \<and> length (fst (snd (snd p))) = fst (snd p)"
  proof
    fix p assume "p \<in> set patches"
    with build_patches_inv[OF bp] obtain b new where b: "b \<in> set (find_mascot_blocks data)"
      "p = (offset b, length_b b, block b, new)" "length new = length_b b" by blast
    from find_mascot_blocks_inv[of data] b(1) have "wf_block data b" by blast
    then have "length (block b) = length_b b" unfolding wf_block_def by blast
    with b show "length (snd (snd (snd p))) = fst (snd p)
                  \<and> length (fst (snd (snd p))) = fst (snd p)" by simp
  qed
  then show "\<not> list_ex (\<lambda>(off, len, old, new). length new \<noteq> len) patches"
    by (auto simp: list_ex_iff)
  show "\<forall>modified. apply_patches data patches = Some modified \<longrightarrow>
              length modified = length data"
    using apply_patches_length[OF all] by blast
qed

theorem length_invariance_witness:
  "build_replacement stock_info = (Some patched_block, True, Padded 6)
   \<and> length patched_block = length_b stock_info
   \<and> build_patches (find_mascot_blocks stock_image) = Inr [(8, 438, stock_block, patched_block)]
   \<and> apply_patches stock_image [(8, 438, stock_block, patched_block)] = Some patched_image
   \<and> length patched_image = length stock_image"
proof -
  note t = length_invariance[of stock_info "Some patched_block" "Padded 6" stock_image
      "[(8, 438, stock_block, patched_block)]"]
  from t stock_build have 1: "length patched_block = length_b stock_info" by simp
  from t stock_patches stock_apply have 2: "length patched_image = length stock_image" by blast
  from 1 2 stock_build stock_patches stock_apply show ?thesis by blast
qed

section \<open>A second run\<close>

text \<open>
  Claim C2, which the code does not meet. A first run on the stock image patches it; the patched block
  carries the fingerprint, but it no longer has the text \<^verbatim>\<open>clawd_body\<close> that
  \<^verbatim>\<open>find_mascot_blocks\<close> requires near every match, so a second run detects no block at
  all and ends with the error \<^verbatim>\<open>No mascot blocks detected\<close> instead of reporting the block
  as already patched. The bytes stay as the first run left them.
\<close>

theorem second_run_finds_no_blocks:
  "res_outcome (main apply_args good_env stock_fs) = Done
   \<and> res_files (main apply_args good_env stock_fs) ''claude'' = Some patched_image
   \<and> is_already_patched patched_image
   \<and> find_mascot_blocks patched_image = []
   \<and> res_outcome (main apply_args good_env (res_files (main apply_args good_env stock_fs)))
        = No_blocks
   \<and> reported (res_output (main apply_args good_env
          (res_files (main apply_args good_env stock_fs))))
   \<and> res_files (main apply_args good_env (res_files (main apply_args good_env stock_fs)))
        = res_files (main apply_args good_env stock_fs)"
  using first_run
    second_run[of "res_files (main apply_args good_env stock_fs)", OF first_run(2)]
    patched_image_fingerprint patched_image_blocks
  by blast

end
